theory Spec2Isabelle
  imports Complex_Main "HOL-Library.Word" "HOL-Library.List_Lexorder" "HOL-Library.Log_Nat"
begin

section \<open>JavaScript values used by the dashboard\<close>

subsection \<open>Strings\<close>

text \<open>
  A JavaScript string is a sequence of 16-bit code units. Strings are compared with
  \<open>===\<close> (equality of the sequences) and, in \<open>Array.prototype.sort()\<close> without a
  comparator, with \<open><\<close>, which is the lexicographic order of the code units (a proper
  prefix is smaller); that is the order of \<^theory_text>\<open>List_Lexorder\<close>.
  \<open>ascii\<close> writes a literal of ASCII characters; \<open>arrow\<close> is U+2192.
\<close>

type_synonym jsstring = "16 word list"

definition ascii :: "string \<Rightarrow> jsstring" where
  "ascii s = map (\<lambda>c. of_nat (of_char c)) s"

definition arrow :: jsstring where
  "arrow = [0x2192]"

subsection \<open>Rows\<close>

text \<open>
  \<open>type Row = Record<string, string>\<close>: the CSV parser produces one object per line,
  keyed by the header, every value a string (\<open>dynamicTyping: false\<close>). A column that a
  short line does not reach is absent, and reading it gives \<open>undefined\<close>: \<open>None\<close> here.
  Only the columns that the computations below read are kept.
\<close>

record row =
  route :: "jsstring option"
  trip_type :: "jsstring option"
  booking_complete :: "jsstring option"
  num_passengers :: "jsstring option"
  purchase_lead :: "jsstring option"

text \<open>Truthiness of a field: \<open>undefined\<close> and the empty string are falsy.\<close>

definition truthy_field :: "jsstring option \<Rightarrow> bool" where
  "truthy_field f = (case f of None \<Rightarrow> False | Some s \<Rightarrow> s \<noteq> [])"

text \<open>\<open>f || d\<close> for a field \<open>f\<close> and a string \<open>d\<close>.\<close>

definition field_or :: "jsstring option \<Rightarrow> jsstring \<Rightarrow> jsstring" where
  "field_or f d = (case f of None \<Rightarrow> d | Some s \<Rightarrow> if s = [] then d else s)"

subsection \<open>Numbers\<close>

text \<open>
  A Number is an IEEE 754 binary64 value. \<open>Fin q\<close> is the finite double whose exact value
  is the rational \<open>q\<close>; the two zeros are both \<open>Fin 0\<close> (no operation used below tells
  them apart: there is no division by a zero and \<open>toFixed\<close> prints both as \<open>0.0\<close>).
  Every arithmetic operation is the exact operation followed by rounding to the nearest
  double, ties to the even significand (\<open>double_of_rat\<close>).
\<close>

datatype jsnum = NaN | PInf | NInf | Fin rat

definition round_half_even :: "rat \<Rightarrow> int" where
  "round_half_even q =
     (let f = \<lfloor>q\<rfloor>; d = q - of_int f
      in if d < 1 / 2 then f else if 1 / 2 < d then f + 1 else if even f then f else f + 1)"

text \<open>\<open>ilog2 q\<close> is the integer part of the binary logarithm of a positive rational.\<close>

definition ilog2 :: "rat \<Rightarrow> int" where
  "ilog2 q =
     (let (a, b) = quotient_of q; d = bitlen a - bitlen b
      in if 2 powi d \<le> q then d else d - 1)"

text \<open>
  Rounding to binary64: 53 significant bits, the least exponent of the last place is
  \<open>-1074\<close> (subnormal numbers), and a rounded magnitude of \<open>2 ^ 1024\<close> or more is an
  infinity.
\<close>

definition double_of_rat :: "rat \<Rightarrow> jsnum" where
  "double_of_rat q =
     (if q = 0 then Fin 0
      else
        let e = max (ilog2 \<bar>q\<bar> - 52) (- 1074);
            m = round_half_even (\<bar>q\<bar> / 2 powi e);
            v = of_int m * 2 powi e
        in if 2 ^ 1024 \<le> v then (if 0 < q then PInf else NInf)
           else Fin (if 0 < q then v else - v))"

fun fadd :: "jsnum \<Rightarrow> jsnum \<Rightarrow> jsnum" where
  "fadd NaN y = NaN"
| "fadd x NaN = NaN"
| "fadd (Fin a) (Fin b) = double_of_rat (a + b)"
| "fadd (Fin a) y = y"
| "fadd x (Fin b) = x"
| "fadd x y = (if x = y then x else NaN)"

fun fmul :: "jsnum \<Rightarrow> jsnum \<Rightarrow> jsnum" where
  "fmul NaN y = NaN"
| "fmul x NaN = NaN"
| "fmul (Fin a) (Fin b) = double_of_rat (a * b)"
| "fmul (Fin a) y = (if a = 0 then NaN else if (0 < a) = (y = PInf) then PInf else NInf)"
| "fmul x (Fin b) = (if b = 0 then NaN else if (0 < b) = (x = PInf) then PInf else NInf)"
| "fmul x y = (if x = y then PInf else NInf)"

text \<open>
  \<open>x / c\<close> where \<open>c\<close> is a count of array elements: a non-negative integer below
  \<open>2 ^ 32\<close>, which is a double exactly, and a positive zero when it is zero.
\<close>

fun fdiv_count :: "jsnum \<Rightarrow> nat \<Rightarrow> jsnum" where
  "fdiv_count NaN c = NaN"
| "fdiv_count PInf c = PInf"
| "fdiv_count NInf c = NInf"
| "fdiv_count (Fin q) c =
     (if c = 0 then (if q = 0 then NaN else if 0 < q then PInf else NInf)
      else double_of_rat (q / of_int (int c)))"

text \<open>Truthiness of a number: \<open>NaN\<close> and the zeros are falsy.\<close>

definition truthy_num :: "jsnum \<Rightarrow> bool" where
  "truthy_num x \<longleftrightarrow> x \<noteq> NaN \<and> x \<noteq> Fin 0"

definition num_or :: "jsnum \<Rightarrow> jsnum \<Rightarrow> jsnum" where
  "num_or x d = (if truthy_num x then x else d)"

subsection \<open>\<open>Number(s)\<close> of a string\<close>

text \<open>
  The conversion \<open>StringToNumber\<close> of the language: white space and line terminators are
  trimmed on both sides; the empty string is \<open>0\<close>; a signed decimal literal (digits, a
  fraction, an exponent), \<open>Infinity\<close> with an optional sign, and an unsigned literal in
  base 2, 8 or 16 (\<open>0b\<close>, \<open>0o\<close>, \<open>0x\<close>) have their mathematical value, rounded to a
  double; anything else is \<open>NaN\<close>.
\<close>

definition is_ws :: "16 word \<Rightarrow> bool" where
  "is_ws c \<longleftrightarrow> c \<in> set [0x9, 0xA, 0xB, 0xC, 0xD, 0x20, 0xA0, 0x1680,
       0x2000, 0x2001, 0x2002, 0x2003, 0x2004, 0x2005, 0x2006, 0x2007, 0x2008, 0x2009, 0x200A,
       0x2028, 0x2029, 0x202F, 0x205F, 0x3000, 0xFEFF]"

definition trim :: "jsstring \<Rightarrow> jsstring" where
  "trim s = rev (dropWhile is_ws (rev (dropWhile is_ws s)))"

definition is_digit :: "16 word \<Rightarrow> bool" where
  "is_digit c \<longleftrightarrow> 0x30 \<le> c \<and> c \<le> 0x39"

text \<open>The value of a digit in a base up to 16, \<open>None\<close> for any other code unit.\<close>

definition digit_in :: "int \<Rightarrow> 16 word \<Rightarrow> int option" where
  "digit_in base c =
     (let v = (if 0x30 \<le> c \<and> c \<le> 0x39 then uint c - 0x30
               else if 0x61 \<le> c \<and> c \<le> 0x66 then uint c - 0x61 + 10
               else if 0x41 \<le> c \<and> c \<le> 0x46 then uint c - 0x41 + 10
               else 16)
      in if v < base then Some v else None)"

fun digits_in :: "int \<Rightarrow> int \<Rightarrow> jsstring \<Rightarrow> int option" where
  "digits_in base acc [] = Some acc"
| "digits_in base acc (c # cs) =
     (case digit_in base c of None \<Rightarrow> None | Some v \<Rightarrow> digits_in base (base * acc + v) cs)"

text \<open>A non-empty sequence of digits of the base, as a number.\<close>

definition digits_val :: "int \<Rightarrow> jsstring \<Rightarrow> int option" where
  "digits_val base s = (if s = [] then None else digits_in base 0 s)"

text \<open>The exponent part: nothing, or \<open>e\<close> or \<open>E\<close>, an optional sign and decimal digits.\<close>

definition exponent_part :: "jsstring \<Rightarrow> int option" where
  "exponent_part s =
     (case s of
        [] \<Rightarrow> Some 0
      | c # r \<Rightarrow>
          if c = 0x65 \<or> c = 0x45 then
            (case r of
               [] \<Rightarrow> None
             | d # r' \<Rightarrow>
                 if d = 0x2D then map_option uminus (digits_val 10 r')
                 else if d = 0x2B then digits_val 10 r'
                 else digits_val 10 r)
          else None)"

text \<open>An unsigned decimal literal other than \<open>Infinity\<close>, as its exact value.\<close>

definition unsigned_decimal :: "jsstring \<Rightarrow> rat option" where
  "unsigned_decimal s =
     (let ip = takeWhile is_digit s; r1 = dropWhile is_digit s;
          dot = (r1 \<noteq> [] \<and> hd r1 = 0x2E);
          fp = (if dot then takeWhile is_digit (tl r1) else []);
          r2 = (if dot then dropWhile is_digit (tl r1) else r1)
      in if ip = [] \<and> fp = [] then None
         else
           (case exponent_part r2 of
              None \<Rightarrow> None
            | Some e \<Rightarrow>
                Some ((of_int (the (digits_in 10 0 ip))
                        + of_int (the (digits_in 10 0 fp)) / 10 ^ length fp) * 10 powi e)))"

definition str_decimal :: "jsstring \<Rightarrow> jsnum" where
  "str_decimal s =
     (let neg = (s \<noteq> [] \<and> hd s = 0x2D);
          u = (if s \<noteq> [] \<and> (hd s = 0x2D \<or> hd s = 0x2B) then tl s else s)
      in if u = ascii ''Infinity'' then (if neg then NInf else PInf)
         else
           (case unsigned_decimal u of
              None \<Rightarrow> NaN
            | Some q \<Rightarrow> double_of_rat (if neg then - q else q)))"

definition radix_prefix :: "jsstring \<Rightarrow> int option" where
  "radix_prefix s =
     (case s of
        a # b # _ \<Rightarrow>
          if a \<noteq> 0x30 then None
          else if b = 0x78 \<or> b = 0x58 then Some 16
          else if b = 0x6F \<or> b = 0x4F then Some 8
          else if b = 0x62 \<or> b = 0x42 then Some 2
          else None
      | _ \<Rightarrow> None)"

definition Number :: "jsstring \<Rightarrow> jsnum" where
  "Number s =
     (let t = trim s
      in if t = [] then Fin 0
         else
           (case radix_prefix t of
              Some base \<Rightarrow>
                (case digits_val base (drop 2 t) of
                   None \<Rightarrow> NaN
                 | Some n \<Rightarrow> double_of_rat (of_int n))
            | None \<Rightarrow> str_decimal t))"

text \<open>\<open>Number(f)\<close> of a field: \<open>Number(undefined)\<close> is \<open>NaN\<close>.\<close>

definition Number_field :: "jsstring option \<Rightarrow> jsnum" where
  "Number_field f = (case f of None \<Rightarrow> NaN | Some s \<Rightarrow> Number s)"

subsection \<open>\<open>toFixed(1)\<close>\<close>

text \<open>
  \<open>x.toFixed(1)\<close> of a finite \<open>x\<close> of magnitude below \<open>10 ^ 21\<close> prints the integer \<open>n\<close>
  for which \<open>n / 10\<close> is nearest to the magnitude (the larger one when two are equally
  near) with a point before its last digit, and a minus sign for a negative \<open>x\<close>.
\<close>

definition toFixed1_n :: "rat \<Rightarrow> int" where
  "toFixed1_n x = \<lfloor>x * 10 + 1 / 2\<rfloor>"

function decimal_digits :: "int \<Rightarrow> jsstring" where
  "decimal_digits n =
     (if n < 10 then [word_of_int (0x30 + n)]
      else decimal_digits (n div 10) @ [word_of_int (0x30 + n mod 10)])"
  by pat_completeness auto
termination
  by (relation "measure nat") auto

declare decimal_digits.simps [simp del]

text \<open>
  The text of a number shown on a card: a string, or, for a magnitude of \<open>10 ^ 21\<close> or
  more, the exponent notation of \<open>Number.prototype.toString\<close>, whose last digit the
  language leaves to the engine; it is kept as the number it prints.
\<close>

datatype numtext = Text jsstring | Exponential rat

definition toFixed1 :: "jsnum \<Rightarrow> numtext" where
  "toFixed1 x =
     (case x of
        NaN \<Rightarrow> Text (ascii ''NaN'')
      | PInf \<Rightarrow> Text (ascii ''Infinity'')
      | NInf \<Rightarrow> Text (ascii ''-Infinity'')
      | Fin q \<Rightarrow>
          if 10 ^ 21 \<le> \<bar>q\<bar> then Exponential q
          else
            let n = toFixed1_n \<bar>q\<bar>
            in Text ((if q < 0 then ascii ''-'' else [])
                     @ decimal_digits (n div 10) @ ascii ''.'' @ decimal_digits (n mod 10)))"

text \<open>
  \<open>+s\<close> of such a text is \<open>Number(s)\<close>; the exponent notation of a number reads back as
  that number.
\<close>

definition Number_text :: "numtext \<Rightarrow> jsnum" where
  "Number_text t = (case t of Text s \<Rightarrow> Number s | Exponential q \<Rightarrow> Fin q)"

subsection \<open>Objects used as dictionaries\<close>

text \<open>
  The accumulators \<open>counts\<close> and \<open>sums\<close> are objects created empty by \<open>{}\<close> and keyed by
  field values; the table of route names is an object literal. An object keeps its own
  string-keyed properties in the order in which they were created; assigning to an
  existing key keeps its place.
\<close>

type_synonym 'v jsobj = "(jsstring \<times> 'v) list"

fun obj_set :: "'v jsobj \<Rightarrow> jsstring \<Rightarrow> 'v \<Rightarrow> 'v jsobj" where
  "obj_set [] k v = [(k, v)]"
| "obj_set (p # ps) k v = (if fst p = k then (k, v) # ps else p # obj_set ps k v)"

text \<open>
  These objects inherit from \<open>Object.prototype\<close>: reading a key that is no own property
  finds the member of \<open>Object.prototype\<close> of that name, if there is one. Its members in a
  browser are those of the language and of its annex for browsers; all are functions,
  but \<open>__proto__\<close>, an accessor whose value is \<open>Object.prototype\<close> itself.
\<close>

definition Object_prototype_names :: "jsstring list" where
  "Object_prototype_names =
     map ascii
       [''constructor'', ''__defineGetter__'', ''__defineSetter__'', ''hasOwnProperty'',
        ''__lookupGetter__'', ''__lookupSetter__'', ''isPrototypeOf'', ''propertyIsEnumerable'',
        ''toString'', ''valueOf'', ''__proto__'', ''toLocaleString'']"

definition is_member :: "jsstring \<Rightarrow> bool" where
  "is_member k \<longleftrightarrow> k \<in> set Object_prototype_names"

text \<open>
  \<open>Object.prototype\<close> and its members are shared by all code. The one change that this
  program makes to them is in \<open>avgLeadByRoute\<close>, which may give some of them the
  properties \<open>sum\<close> and \<open>c\<close>, both with the value \<open>NaN\<close> (see there). The state of the
  shared objects is the set of the names of the members that have these two properties;
  when \<open>__proto__\<close> is among them, \<open>Object.prototype\<close> has them and every object inherits
  them.
\<close>

type_synonym shared = "jsstring set"

text \<open>
  Reading \<open>obj[k]\<close> finds an own property, or the member \<open>k\<close> of \<open>Object.prototype\<close>, or
  a property \<open>sum\<close> or \<open>c\<close> that was added to \<open>Object.prototype\<close>, whose value is \<open>NaN\<close>, or
  nothing, with the value \<open>undefined\<close>.
\<close>

datatype 'v lookup = Own 'v | Member jsstring | Added | Absent

definition obj_get :: "shared \<Rightarrow> 'v jsobj \<Rightarrow> jsstring \<Rightarrow> 'v lookup" where
  "obj_get g obj k =
     (case map_of obj k of
        Some v \<Rightarrow> Own v
      | None \<Rightarrow>
          if is_member k then Member k
          else if (k = ascii ''sum'' \<or> k = ascii ''c'') \<and> ascii ''__proto__'' \<in> g then Added
          else Absent)"

text \<open>
  The assignment \<open>obj[k] = v\<close> creates or updates an own property, also when a property
  of that name is inherited, for every key but \<open>__proto__\<close>: that assignment calls the
  setter of \<open>Object.prototype\<close> and creates no property. The setter ignores a value that
  is no object; the one object that this program assigns is \<open>Object.prototype\<close> itself,
  read from the same key, which leaves the object as it is.
\<close>

definition obj_assign :: "'v jsobj \<Rightarrow> jsstring \<Rightarrow> 'v \<Rightarrow> 'v jsobj" where
  "obj_assign obj k v = (if k = ascii ''__proto__'' then obj else obj_set obj k v)"

text \<open>
  \<open>Object.entries\<close> lists the own properties in the order of the language: first the
  keys that are array indices (the decimal numeral, without leading zeros, of an integer
  below \<open>2 ^ 32 - 1\<close>) by ascending value, then all other keys in creation order.
\<close>

definition is_array_index :: "jsstring \<Rightarrow> bool" where
  "is_array_index k \<longleftrightarrow>
     (case digits_val 10 k of
        None \<Rightarrow> False
      | Some n \<Rightarrow> (k = ascii ''0'' \<or> hd k \<noteq> 0x30) \<and> n < 2 ^ 32 - 1)"

definition index_of_key :: "jsstring \<Rightarrow> int" where
  "index_of_key k = (case digits_val 10 k of None \<Rightarrow> 0 | Some n \<Rightarrow> n)"

definition Object_entries :: "'v jsobj \<Rightarrow> (jsstring \<times> 'v) list" where
  "Object_entries obj =
     sort_key (\<lambda>p. index_of_key (fst p)) (filter (\<lambda>p. is_array_index (fst p)) obj)
     @ filter (\<lambda>p. \<not> is_array_index (fst p)) obj"

subsection \<open>Arrays\<close>

text \<open>
  \<open>Array.prototype.sort(cmp)\<close> compares by the sign of \<open>cmp\<close>, where the result \<open>NaN\<close>
  counts as 0; a comparator is given here with that done. The sort is stable: with a
  comparator that is consistent for the elements, its result is the one of any stable
  sorting algorithm, here insertion from the right end. An element goes before the first
  element that it does not follow.
\<close>

fun insert_cmp :: "('a \<Rightarrow> 'a \<Rightarrow> int) \<Rightarrow> 'a \<Rightarrow> 'a list \<Rightarrow> 'a list" where
  "insert_cmp cmp x [] = [x]"
| "insert_cmp cmp x (y # ys) = (if cmp x y \<le> 0 then x # y # ys else y # insert_cmp cmp x ys)"

definition sort_cmp :: "('a \<Rightarrow> 'a \<Rightarrow> int) \<Rightarrow> 'a list \<Rightarrow> 'a list" where
  "sort_cmp cmp xs = foldr (insert_cmp cmp) xs []"

text \<open>
  The conditions of the language for a consistent comparator, for all elements \<open>a\<close>, \<open>b\<close>
  and \<open>c\<close>: \<open>a\<close> equals \<open>a\<close>; equality is symmetric and transitive; before and after are
  transitive. With a comparator that is not consistent, the language leaves the order of
  the result to the engine: the result of the sort is \<open>None\<close> then.
\<close>

definition consistent :: "('a \<Rightarrow> 'a \<Rightarrow> int) \<Rightarrow> 'a list \<Rightarrow> bool" where
  "consistent cmp xs =
     list_all (\<lambda>a. list_all (\<lambda>b. list_all (\<lambda>c.
         cmp a a = 0
         \<and> (if cmp a b = 0 then cmp b a = 0 else True)
         \<and> (if cmp a b = 0 \<and> cmp b c = 0 then cmp a c = 0 else True)
         \<and> (if cmp a b < 0 \<and> cmp b c < 0 then cmp a c < 0 else True)
         \<and> (if 0 < cmp a b \<and> 0 < cmp b c then 0 < cmp a c else True)) xs) xs) xs"

definition Array_sort :: "('a \<Rightarrow> 'a \<Rightarrow> int) \<Rightarrow> 'a list \<Rightarrow> 'a list option" where
  "Array_sort cmp xs = (if consistent cmp xs then Some (sort_cmp cmp xs) else None)"

text \<open>
  \<open>Array.from(new Set(xs))\<close>: the distinct elements of \<open>xs\<close>, each at its first
  occurrence.
\<close>

fun Set_from :: "'a list \<Rightarrow> 'a list" where
  "Set_from [] = []"
| "Set_from (x # xs) = x # filter (\<lambda>y. y \<noteq> x) (Set_from xs)"

section \<open>Route names (\<open>utils/routeMapping.ts\<close>)\<close>

definition ROUTE_NAMES :: "jsstring jsobj" where
  "ROUTE_NAMES =
    [(ascii ''AKLDEL'', ascii ''Auckland '' @ arrow @ ascii '' Delhi''),
     (ascii ''AKLHGH'', ascii ''Auckland '' @ arrow @ ascii '' Hangzhou''),
     (ascii ''AKLHND'', ascii ''Auckland '' @ arrow @ ascii '' Tokyo (Haneda)''),
     (ascii ''AKLICN'', ascii ''Auckland '' @ arrow @ ascii '' Seoul (Incheon)''),
     (ascii ''AKLKIX'', ascii ''Auckland '' @ arrow @ ascii '' Osaka (Kansai)''),
     (ascii ''AKLKTM'', ascii ''Auckland '' @ arrow @ ascii '' Kathmandu''),
     (ascii ''AKLKUL'', ascii ''Auckland '' @ arrow @ ascii '' Kuala Lumpur''),
     (ascii ''AKLNRT'', ascii ''Auckland '' @ arrow @ ascii '' Tokyo (Narita)''),
     (ascii ''AKLPVG'', ascii ''Auckland '' @ arrow @ ascii '' Shanghai''),
     (ascii ''AKLSIN'', ascii ''Auckland '' @ arrow @ ascii '' Singapore''),
     (ascii ''AKLTPE'', ascii ''Auckland '' @ arrow @ ascii '' Taipei''),
     (ascii ''MELBKK'', ascii ''Melbourne '' @ arrow @ ascii '' Bangkok''),
     (ascii ''MELDEL'', ascii ''Melbourne '' @ arrow @ ascii '' Delhi''),
     (ascii ''MELHKG'', ascii ''Melbourne '' @ arrow @ ascii '' Hong Kong''),
     (ascii ''MELSIN'', ascii ''Melbourne '' @ arrow @ ascii '' Singapore''),
     (ascii ''SYDBKK'', ascii ''Sydney '' @ arrow @ ascii '' Bangkok''),
     (ascii ''SYDDEL'', ascii ''Sydney '' @ arrow @ ascii '' Delhi''),
     (ascii ''SYDHKG'', ascii ''Sydney '' @ arrow @ ascii '' Hong Kong''),
     (ascii ''SYDSIN'', ascii ''Sydney '' @ arrow @ ascii '' Singapore'')]"

text \<open>
  \<open>ROUTE_NAMES[routeCode] || routeCode\<close>. The table is an object as well: for a code that
  names a member of \<open>Object.prototype\<close> the function returns that member, which is truthy,
  and not a string.
\<close>

datatype name_val = Name jsstring | Member_obj jsstring

definition getRouteName :: "shared \<Rightarrow> jsstring \<Rightarrow> name_val" where
  "getRouteName g routeCode =
     (case obj_get g ROUTE_NAMES routeCode of
        Own name \<Rightarrow> if name \<noteq> [] then Name name else Name routeCode
      | Member k \<Rightarrow> Member_obj k
      | Added \<Rightarrow> Name routeCode
      | Absent \<Rightarrow> Name routeCode)"

section \<open>The dashboard (\<open>App.tsx\<close>)\<close>

text \<open>The facet lists \<open>routes\<close> and \<open>tripTypes\<close>.\<close>

definition routes :: "row list \<Rightarrow> jsstring list" where
  "routes data = sort (Set_from (map the (filter truthy_field (map route data))))"

definition tripTypes :: "row list \<Rightarrow> jsstring list" where
  "tripTypes data = sort (Set_from (map the (filter truthy_field (map trip_type data))))"

text \<open>
  \<open>filteredData\<close>: the callback of \<open>data.filter\<close>, with its two early returns, and the
  filter. A selection is a string, falsy when empty.
\<close>

definition keep_row :: "jsstring \<Rightarrow> jsstring \<Rightarrow> row \<Rightarrow> bool" where
  "keep_row selectedRoute selectedTripType r =
     (if selectedRoute \<noteq> [] \<and> route r \<noteq> Some selectedRoute then False
      else if selectedTripType \<noteq> [] \<and> trip_type r \<noteq> Some selectedTripType then False
      else True)"

definition filteredData :: "row list \<Rightarrow> jsstring \<Rightarrow> jsstring \<Rightarrow> row list" where
  "filteredData data selectedRoute selectedTripType =
     filter (keep_row selectedRoute selectedTripType) data"

text \<open>
  \<open>stats\<close>. The counts are lengths of arrays, exact as doubles. The \<open>reduce\<close> of
  \<open>avgPassengers\<close> adds \<open>Number(r.num_passengers || 0)\<close> from the left, starting at 0.
\<close>

record stats_t =
  total :: nat
  completed :: nat
  completionRate :: numtext
  avgPassengers :: numtext
  uniqueRoutes :: nat

definition passengers :: "row \<Rightarrow> jsnum" where
  "passengers r = (if truthy_field (num_passengers r) then Number_field (num_passengers r) else Fin 0)"

definition stats :: "row list \<Rightarrow> stats_t" where
  "stats filtered =
     (let completed = length (filter (\<lambda>r. booking_complete r = Some (ascii ''1'')) filtered);
          total = length filtered;
          completionRate =
            (if 0 < total
             then toFixed1 (fmul (fdiv_count (Fin (of_int (int completed))) total) (Fin 100))
             else Text (ascii ''0''));
          avgPassengers =
            (if 0 < total
             then toFixed1 (fdiv_count (fold (\<lambda>r sum. fadd sum (passengers r)) filtered (Fin 0)) total)
             else Text (ascii ''0''));
          uniqueRoutes = length (Set_from (map route filtered))
      in \<lparr>total = total, completed = completed, completionRate = completionRate,
          avgPassengers = avgPassengers, uniqueRoutes = uniqueRoutes\<rparr>)"

section \<open>The chart projections (\<open>components/ChartPanel.tsx\<close>)\<close>

text \<open>
  Each projection returns the empty array for empty data, and otherwise fills an object
  in one pass over the rows and maps its entries. An entry \<open>{name, value}\<close>,
  \<open>{route, count}\<close> or \<open>{route, avg}\<close> is the pair of its two fields.

  A value of \<open>counts\<close> is a number of rows, exact as a double, or, for a key that names
  a member of \<open>Object.prototype\<close>, a string: the text of that member followed by as
  many digits 1 as rows were counted. In \<open>(counts[key] || 0) + 1\<close> an absent key and an
  inherited \<open>NaN\<close> give 0 and then 1; a number gives its successor; an inherited member is
  truthy, and \<open>+\<close> appends \<open>1\<close> to its text; so it does to a string.
\<close>

datatype cval = Count nat | Member_text jsstring nat

definition plus1 :: "cval lookup \<Rightarrow> cval" where
  "plus1 l =
     (case l of
        Own v \<Rightarrow> (case v of Count n \<Rightarrow> Count (n + 1) | Member_text k n \<Rightarrow> Member_text k (n + 1))
      | Member k \<Rightarrow> Member_text k 1
      | Added \<Rightarrow> Count 1
      | Absent \<Rightarrow> Count 1)"

definition byCompletion :: "shared \<Rightarrow> row list \<Rightarrow> (jsstring \<times> cval) list" where
  "byCompletion g data =
     (if data = [] then []
      else
        let counts =
              fold (\<lambda>r counts.
                      let key = (case booking_complete r of None \<Rightarrow> ascii ''0'' | Some s \<Rightarrow> s)
                      in obj_assign counts key (plus1 (obj_get g counts key)))
                data []
        in map (\<lambda>(k, v). (if k = ascii ''1'' then ascii ''Complete'' else ascii ''Incomplete'', v))
             (Object_entries counts))"

definition byTripType :: "shared \<Rightarrow> row list \<Rightarrow> (jsstring \<times> cval) list" where
  "byTripType g data =
     (if data = [] then []
      else
        let counts =
              fold (\<lambda>r counts.
                      let type = field_or (trip_type r) (ascii ''Unknown'')
                      in obj_assign counts type (plus1 (obj_get g counts type)))
                data []
        in map (\<lambda>(name, value). (name, value)) (Object_entries counts))"

text \<open>
  The comparator of \<open>topRoutes\<close>, \<open>b[1] - a[1]\<close>, as the sort sees it: the difference of
  two numbers, and 0 in place of the \<open>NaN\<close> that a string operand gives (the text of a
  function is no numeric literal).
\<close>

definition by_count :: "'a \<times> cval \<Rightarrow> 'a \<times> cval \<Rightarrow> int" where
  "by_count a b =
     (case snd b of
        Count y \<Rightarrow> (case snd a of Count x \<Rightarrow> int y - int x | Member_text k n \<Rightarrow> 0)
      | Member_text k n \<Rightarrow> 0)"

definition topRoutes :: "shared \<Rightarrow> row list \<Rightarrow> (name_val \<times> cval) list option" where
  "topRoutes g data =
     (if data = [] then Some []
      else
        let counts =
              fold (\<lambda>r counts.
                      let route = field_or (route r) (ascii ''Unknown'')
                      in obj_assign counts route (plus1 (obj_get g counts route)))
                data []
        in map_option
             (\<lambda>sorted. map (\<lambda>(route, count). (getRouteName g route, count)) (take 10 sorted))
             (Array_sort by_count (Object_entries counts)))"

text \<open>
  The accumulator of \<open>avgLeadByRoute\<close>: \<open>{sum, c}\<close>. A value of \<open>sums\<close> is such an
  object, created for its key, or, for a key that names a member of \<open>Object.prototype\<close>,
  that member, which is truthy in \<open>sums[route] || { sum: 0, c: 0 }\<close>.
\<close>

record lead_acc =
  sum_acc :: jsnum
  c_acc :: nat

datatype sval = Fresh lead_acc | Shared jsstring

text \<open>\<open>Number(r.purchase_lead) || 0\<close>\<close>

definition lead :: "row \<Rightarrow> jsnum" where
  "lead r = num_or (Number_field (purchase_lead r)) (Fin 0)"

text \<open>
  The pass over the rows carries \<open>sums\<close> and the state of the shared objects. On an
  object of its own, \<open>sum\<close> and \<open>c\<close> are added to. On a member of \<open>Object.prototype\<close>,
  \<open>sum += val\<close> and \<open>c += 1\<close> create or overwrite two properties of the member: what was
  read is \<open>undefined\<close>, or the \<open>NaN\<close> of an earlier pass, and both plus a number are \<open>NaN\<close>.
  The average of such an entry is \<open>NaN / NaN\<close>.
\<close>

definition avgLeadByRoute :: "shared \<Rightarrow> row list \<Rightarrow> (name_val \<times> jsnum) list \<times> shared" where
  "avgLeadByRoute g data =
     (if data = [] then ([], g)
      else
        let (sums', g') =
              fold (\<lambda>r (sums', g).
                      let route = field_or (route r) (ascii ''Unknown'');
                          v = lead r;
                          obj = (case obj_get g sums' route of
                                   Own obj \<Rightarrow> obj
                                 | Member k \<Rightarrow> Shared k
                                 | Added \<Rightarrow> Fresh \<lparr>sum_acc = Fin 0, c_acc = 0\<rparr>
                                 | Absent \<Rightarrow> Fresh \<lparr>sum_acc = Fin 0, c_acc = 0\<rparr>)
                      in (case obj of
                            Fresh acc \<Rightarrow>
                              (obj_assign sums' route
                                 (Fresh \<lparr>sum_acc = fadd (sum_acc acc) v, c_acc = c_acc acc + 1\<rparr>), g)
                          | Shared k \<Rightarrow> (obj_assign sums' route (Shared k), insert k g)))
                data ([], g)
        in (map (\<lambda>(route, obj).
                   (getRouteName g' route,
                    Number_text (toFixed1 (case obj of
                                             Fresh acc \<Rightarrow> fdiv_count (sum_acc acc) (c_acc acc)
                                           | Shared k \<Rightarrow> NaN))))
              (take 12 (Object_entries sums')),
            g'))"

section \<open>The page: state and memoised computations\<close>













section \<open>Vocabulary of the properties\<close>

text \<open>
  The grouping keys of a row, and rows none of whose keys names a member of
  \<open>Object.prototype\<close>.
\<close>

definition completion_key :: "row \<Rightarrow> jsstring" where
  "completion_key r = (case booking_complete r of None \<Rightarrow> ascii ''0'' | Some s \<Rightarrow> s)"

definition trip_key :: "row \<Rightarrow> jsstring" where
  "trip_key r = field_or (trip_type r) (ascii ''Unknown'')"

definition route_key :: "row \<Rightarrow> jsstring" where
  "route_key r = field_or (route r) (ascii ''Unknown'')"

definition no_member_key :: "('r \<Rightarrow> jsstring) \<Rightarrow> 'r list \<Rightarrow> bool" where
  "no_member_key key data \<longleftrightarrow> \<not> list_ex (\<lambda>r. is_member (key r)) data"

text \<open>
  The passes over the rows: the three that count, for a key function, and the one that
  adds up the purchase leads.
\<close>

definition count_pass :: "shared \<Rightarrow> ('r \<Rightarrow> jsstring) \<Rightarrow> 'r list \<Rightarrow> cval jsobj" where
  "count_pass g key data =
     fold (\<lambda>r counts. obj_assign counts (key r) (plus1 (obj_get g counts (key r)))) data []"

definition lead_step :: "row \<Rightarrow> sval jsobj \<times> shared \<Rightarrow> sval jsobj \<times> shared" where
  "lead_step =
     (\<lambda>r (sums', g).
        let route = field_or (route r) (ascii ''Unknown'');
            v = lead r;
            obj = (case obj_get g sums' route of
                     Own obj \<Rightarrow> obj
                   | Member k \<Rightarrow> Shared k
                   | Added \<Rightarrow> Fresh \<lparr>sum_acc = Fin 0, c_acc = 0\<rparr>
                   | Absent \<Rightarrow> Fresh \<lparr>sum_acc = Fin 0, c_acc = 0\<rparr>)
        in (case obj of
              Fresh acc \<Rightarrow>
                (obj_assign sums' route
                   (Fresh \<lparr>sum_acc = fadd (sum_acc acc) v, c_acc = c_acc acc + 1\<rparr>), g)
            | Shared k \<Rightarrow> (obj_assign sums' route (Shared k), insert k g)))"

text \<open>
  When no key names a member of \<open>Object.prototype\<close>, these passes have one shape: the
  key of the row is looked up among the own properties, and the entry of the key is set
  to a new value computed from the old one.
\<close>

definition group_fold ::
  "('r \<Rightarrow> jsstring) \<Rightarrow> ('v option \<Rightarrow> 'r \<Rightarrow> 'v) \<Rightarrow> 'r list \<Rightarrow> 'v jsobj" where
  "group_fold key upd data =
     fold (\<lambda>r obj. obj_set obj (key r) (upd (map_of obj (key r)) r)) data []"

definition count_upd :: "cval option \<Rightarrow> 'r \<Rightarrow> cval" where
  "count_upd v r = plus1 (case v of None \<Rightarrow> Absent | Some c \<Rightarrow> Own c)"

definition lead_upd :: "sval option \<Rightarrow> row \<Rightarrow> sval" where
  "lead_upd v r =
     (let obj = (case v of Some (Fresh obj) \<Rightarrow> obj | _ \<Rightarrow> \<lparr>sum_acc = Fin 0, c_acc = 0\<rparr>)
      in Fresh \<lparr>sum_acc = fadd (sum_acc obj) (lead r), c_acc = c_acc obj + 1\<rparr>)"

text \<open>The value that the updates of one key build up, from the rows of that key.\<close>

definition tally :: "('v option \<Rightarrow> 'r \<Rightarrow> 'v) \<Rightarrow> 'r list \<Rightarrow> 'v option" where
  "tally upd rows = foldl (\<lambda>v r. Some (upd v r)) None rows"

text \<open>The rows of a key, and the distinct keys in the order of their first row.\<close>

definition rows_of :: "('r \<Rightarrow> jsstring) \<Rightarrow> 'r list \<Rightarrow> jsstring \<Rightarrow> 'r list" where
  "rows_of key data k = filter (\<lambda>r. key r = k) data"

definition first_seen :: "('r \<Rightarrow> jsstring) \<Rightarrow> 'r list \<Rightarrow> jsstring list" where
  "first_seen key data = Set_from (map key data)"

text \<open>
  The order in which \<open>Object.entries\<close> lists keys that were created in the order \<open>ks\<close>.
\<close>

definition key_order :: "jsstring list \<Rightarrow> jsstring list" where
  "key_order ks =
     sort_key index_of_key (filter is_array_index ks) @ filter (\<lambda>k. \<not> is_array_index k) ks"

text \<open>
  The running sum of the purchase leads of some rows, in double precision from the left,
  and \<open>+x.toFixed(1)\<close>.
\<close>

definition lead_sum :: "row list \<Rightarrow> jsnum" where
  "lead_sum rows = foldl fadd (Fin 0) (map lead rows)"

definition round1 :: "jsnum \<Rightarrow> jsnum" where
  "round1 x = Number_text (toFixed1 x)"

text \<open>
  The number that a count is (a count that is a string has none: 0 here), and the
  display name of a route code: its name in the table, or the code itself when the table
  has none.
\<close>

definition count_num :: "cval \<Rightarrow> nat" where
  "count_num v = (case v of Count n \<Rightarrow> n | Member_text k n \<Rightarrow> 0)"

definition route_name :: "jsstring \<Rightarrow> jsstring" where
  "route_name k = field_or (map_of ROUTE_NAMES k) k"






text \<open>The rows with a completed booking.\<close>

definition complete_rows :: "row list \<Rightarrow> row list" where
  "complete_rows data = filter (\<lambda>r. booking_complete r = Some (ascii ''1'')) data"

text \<open>
  The ranking of the route keys behind \<open>topRoutes\<close>: the keys in the order of the entries,
  sorted stably by falling number of rows.
\<close>

definition route_ranking :: "row list \<Rightarrow> jsstring list" where
  "route_ranking data =
     sort_key (\<lambda>k. - int (length (rows_of route_key data k)))
       (key_order (first_seen route_key data))"

text \<open>Rows for the examples: the five fields that are read, without passenger number.\<close>

definition mk_row :: "string \<Rightarrow> string \<Rightarrow> string \<Rightarrow> string \<Rightarrow> row" where
  "mk_row r t b l =
     \<lparr>route = Some (ascii r), trip_type = Some (ascii t), booking_complete = Some (ascii b),
      num_passengers = None, purchase_lead = Some (ascii l)\<rparr>"

definition scenario :: "row list" where
  "scenario =
     [mk_row ''AKLDEL'' ''RoundTrip'' ''1'' ''10'',
      mk_row ''AKLDEL'' ''RoundTrip'' ''0'' ''20'',
      mk_row ''SYDBKK'' ''OneWay'' ''1'' ''5'']"

text \<open>
  The claim about \<open>topRoutes\<close> as stated: the distinct route keys in the order of their
  first row, sorted stably by falling number of rows, the first ten, with their names.
\<close>

definition topRoutes_first_seen :: "row list \<Rightarrow> (name_val \<times> cval) list" where
  "topRoutes_first_seen data =
     map (\<lambda>k. (Name (route_name k), Count (length (rows_of route_key data k))))
       (take 10 (sort_key (\<lambda>k. - int (length (rows_of route_key data k)))
                   (first_seen route_key data)))"

text \<open>
  The exponent of the last place of the double nearest to a non-zero rational, and the
  magnitude of that double (possibly \<open>2 ^ 1024\<close>, which stands for an infinity).
\<close>

definition ulp_exp :: "rat \<Rightarrow> int" where
  "ulp_exp q = max (ilog2 \<bar>q\<bar> - 52) (- 1074)"

definition rounded_abs :: "rat \<Rightarrow> rat" where
  "rounded_abs q = of_int (round_half_even (\<bar>q\<bar> / 2 powi ulp_exp q)) * 2 powi ulp_exp q"

text \<open>
  The exact value of a number (0 for one that is not finite), whether it is an integer,
  and rounding of a rational to one decimal place, half away from zero.
\<close>

definition num_val :: "jsnum \<Rightarrow> rat" where
  "num_val x = (case x of Fin q \<Rightarrow> q | _ \<Rightarrow> 0)"

definition is_int_num :: "jsnum \<Rightarrow> bool" where
  "is_int_num x = (case x of Fin q \<Rightarrow> of_int \<lfloor>q\<rfloor> = q | _ \<Rightarrow> False)"

definition round_half_away1 :: "rat \<Rightarrow> rat" where
  "round_half_away1 q = (if q < 0 then - 1 else 1) * of_int \<lfloor>\<bar>q\<bar> * 10 + 1 / 2\<rfloor> / 10"

text \<open>The arithmetic mean of the purchase leads of some rows, computed exactly.\<close>

definition exact_mean :: "row list \<Rightarrow> rat" where
  "exact_mean rows = sum_list (map (\<lambda>r. num_val (lead r)) rows) / of_nat (length rows)"

text \<open>
  Rows on which the double arithmetic of \<open>avgLeadByRoute\<close> is exact enough: they are
  fewer than \<open>2 ^ 32\<close> (as the rows of every array are), their leads are integers whose
  magnitudes add up to less than \<open>2 ^ 53 / 20\<close>, and their mean is not halfway between
  two tenths, unless it is a multiple of a quarter (which is a double).
\<close>

definition exact_leads :: "row list \<Rightarrow> bool" where
  "exact_leads rows \<longleftrightarrow>
     rows \<noteq> [] \<and> length rows < 2 ^ 32
     \<and> list_all (\<lambda>r. is_int_num (lead r)) rows
     \<and> 20 * sum_list (map (\<lambda>r. \<bar>num_val (lead r)\<bar>) rows) < 2 ^ 53
     \<and> (of_int \<lfloor>\<bar>exact_mean rows\<bar> * 10 + 1 / 2\<rfloor> \<noteq> \<bar>exact_mean rows\<bar> * 10 + 1 / 2
          \<or> of_int \<lfloor>exact_mean rows * 4\<rfloor> = exact_mean rows * 4)"

text \<open>
  The average that \<open>avgLeadByRoute\<close> computes for a route key, and the claim about
  \<open>avgLeadByRoute\<close> as stated: the first twelve distinct route keys in the order of their
  first row, each with the mean of its leads rounded to one decimal place.
\<close>

definition route_avg :: "row list \<Rightarrow> jsstring \<Rightarrow> jsnum" where
  "route_avg data k =
     round1 (fdiv_count (lead_sum (rows_of route_key data k)) (length (rows_of route_key data k)))"

definition avgLead_claimed :: "row list \<Rightarrow> (name_val \<times> jsnum) list" where
  "avgLead_claimed data =
     map (\<lambda>k. (Name (route_name k),
                double_of_rat (round_half_away1 (exact_mean (rows_of route_key data k)))))
       (take 12 (first_seen route_key data))"

text \<open>
  Further example data: two routes with numeric codes and one row each; three rows whose
  completion flags are \<open>1\<close>, \<open>0\<close> and empty; twenty rows of one route whose leads add up
  to 7; a row whose lead is the text \<open>Infinity\<close>; two rows of which the first has
  \<open>__proto__\<close> for its route and its completion flag.
\<close>

definition tie_rows :: "row list" where
  "tie_rows = [mk_row ''2'' ''OneWay'' ''1'' ''3'', mk_row ''1'' ''OneWay'' ''1'' ''4'']"

definition blank_rows :: "row list" where
  "blank_rows =
     [mk_row ''AKLDEL'' ''OneWay'' ''1'' ''3'', mk_row ''AKLDEL'' ''OneWay'' ''0'' ''4'',
      mk_row ''AKLDEL'' ''OneWay'' [] ''5'']"

definition lead_rows :: "row list" where
  "lead_rows =
     mk_row ''AKLDEL'' ''OneWay'' ''1'' ''7'' # replicate 19 (mk_row ''AKLDEL'' ''OneWay'' ''0'' ''0'')"

definition infinite_row :: row where
  "infinite_row = mk_row ''AKLDEL'' ''OneWay'' ''1'' ''Infinity''"

definition proto_rows :: "row list" where
  "proto_rows =
     [mk_row ''__proto__'' ''OneWay'' ''__proto__'' ''3'', mk_row ''AKLDEL'' ''OneWay'' ''1'' ''4'']"

section \<open>The accumulator objects\<close>

lemma map_of_obj_set: "map_of (obj_set obj k v) = (map_of obj)(k \<mapsto> v)"
  by (induction obj) (auto simp: fun_eq_iff)

lemma keys_obj_set:
  "map fst (obj_set obj k v) = (if k \<in> set (map fst obj) then map fst obj else map fst obj @ [k])"
  by (induction obj) auto

lemma set_Set_from [simp]: "set (Set_from xs) = set xs"
  by (induction xs) auto

lemma distinct_Set_from [simp]: "distinct (Set_from xs)"
  by (induction xs) auto

lemma Set_from_snoc:
  "Set_from (xs @ [x]) = (if x \<in> set xs then Set_from xs else Set_from xs @ [x])"
  by (induction xs) auto

lemma group_fold_Nil [simp]: "group_fold key upd [] = []"
  by (simp add: group_fold_def)

lemma group_fold_snoc:
  "group_fold key upd (data @ [r]) =
     obj_set (group_fold key upd data) (key r) (upd (map_of (group_fold key upd data) (key r)) r)"
  by (simp add: group_fold_def)

lemma keys_group_fold: "map fst (group_fold key upd data) = Set_from (map key data)"
proof (induction data rule: rev_induct)
  case Nil
  show ?case by simp
next
  case (snoc r data)
  have "set (map fst (group_fold key upd data)) = set (map key data)"
    by (simp only: snoc.IH set_Set_from)
  then show ?case
    by (simp add: group_fold_snoc keys_obj_set snoc.IH Set_from_snoc del: set_map)
qed

lemma tally_snoc: "tally upd (rows @ [r]) = Some (upd (tally upd rows) r)"
  by (simp add: tally_def)

lemma get_group_fold:
  "map_of (group_fold key upd data) k = tally upd (filter (\<lambda>r. key r = k) data)"
proof (induction data rule: rev_induct)
  case Nil
  show ?case by (simp add: tally_def)
next
  case (snoc r data)
  then show ?case
    by (auto simp: group_fold_snoc map_of_obj_set tally_snoc)
qed

lemma alist_by_keys:
  "distinct (map fst xs) \<Longrightarrow> xs = map (\<lambda>k. (k, the (map_of xs k))) (map fst xs)"
proof (induction xs)
  case Nil
  show ?case by simp
next
  case (Cons p xs)
  let ?F = "\<lambda>k. (k, the (map_of (p # xs) k))"
  let ?G = "\<lambda>k. (k, the (map_of xs k))"
  obtain a b where p: "p = (a, b)" by (cases p)
  have a: "a \<notin> set (map fst xs)" using Cons.prems p by simp
  have e1: "map ?F (map fst xs) = map ?G (map fst xs)"
  proof (rule map_cong [OF refl])
    fix k assume "k \<in> set (map fst xs)"
    with a have "k \<noteq> a" by blast
    then show "?F k = ?G k" by (simp add: p)
  qed
  have e2: "xs = map ?G (map fst xs)"
    using Cons by simp
  have "map ?F (map fst (p # xs)) = ?F a # map ?F (map fst xs)" by (simp add: p)
  also have "?F a = p" by (simp add: p)
  also have "map ?F (map fst xs) = xs" unfolding e1 using e2 by (rule sym)
  finally show ?case by (rule sym)
qed

lemma group_fold_eq:
  "group_fold key upd data =
     map (\<lambda>k. (k, the (tally upd (filter (\<lambda>r. key r = k) data)))) (Set_from (map key data))"
proof -
  let ?g = "group_fold key upd data"
  have d: "distinct (map fst ?g)" by (simp add: keys_group_fold)
  have "?g = map (\<lambda>k. (k, the (map_of ?g k))) (map fst ?g)"
    by (rule alist_by_keys [OF d])
  then show ?thesis
    using get_group_fold [of key upd data] by (simp add: keys_group_fold)
qed

lemma insort_key_map:
  "insort_key f (h x) (map h ys) = map h (insort_key (\<lambda>y. f (h y)) x ys)"
  by (induction ys) auto

lemma sort_key_map: "sort_key f (map h xs) = map h (sort_key (\<lambda>y. f (h y)) xs)"
  by (induction xs) (auto simp: insort_key_map)

lemma Object_entries_map:
  "Object_entries (map (\<lambda>k. (k, f k)) ks) = map (\<lambda>k. (k, f k)) (key_order ks)"
  by (simp add: Object_entries_def key_order_def filter_map sort_key_map comp_def)

lemma set_key_order [simp]: "set (key_order ks) = set ks"
  by (auto simp: key_order_def)

lemma distinct_key_order [simp]: "distinct (key_order ks) = distinct ks"
proof
  assume "distinct ks"
  then show "distinct (key_order ks)" by (auto simp: key_order_def)
next
  assume d: "distinct (key_order ks)"
  show "distinct ks"
  proof (rule card_distinct)
    have "length ks = length (filter is_array_index ks) + length (filter (\<lambda>k. \<not> is_array_index k) ks)"
      by (simp add: sum_length_filter_compl)
    also have "\<dots> = length (key_order ks)" by (simp add: key_order_def)
    also have "\<dots> = card (set (key_order ks))" using distinct_card [OF d] by simp
    finally show "card (set ks) = length ks" by simp
  qed
qed

lemma length_key_order [simp]: "length (key_order ks) = length ks"
  by (simp add: key_order_def sum_length_filter_compl)

lemma key_order_plain: "\<not> list_ex is_array_index ks \<Longrightarrow> key_order ks = ks"
  by (simp add: key_order_def list_ex_iff filter_empty_conv)

lemma tally_count:
  "tally count_upd rows = (if rows = [] then None else Some (Count (length rows)))"
  by (induction rows rule: rev_induct)
     (auto simp: tally_snoc count_upd_def plus1_def, simp add: tally_def)

lemma rows_of_nonempty: "k \<in> set (map key data) \<Longrightarrow> rows_of key data k \<noteq> []"
  by (auto simp: rows_of_def filter_empty_conv)

lemma count_entries:
  "Object_entries (group_fold key count_upd data) =
     map (\<lambda>k. (k, Count (length (rows_of key data k)))) (key_order (first_seen key data))"
proof -
  let ?f = "\<lambda>k. the (tally count_upd (filter (\<lambda>r. key r = k) data))"
  have "Object_entries (group_fold key count_upd data) =
          map (\<lambda>k. (k, ?f k)) (key_order (first_seen key data))"
    by (simp only: group_fold_eq Object_entries_map first_seen_def)
  also have "\<dots> = map (\<lambda>k. (k, Count (length (rows_of key data k)))) (key_order (first_seen key data))"
  proof (rule map_cong [OF refl])
    fix k assume "k \<in> set (key_order (first_seen key data))"
    then have "k \<in> set (map key data)" by (simp add: first_seen_def)
    then have "rows_of key data k \<noteq> []" by (rule rows_of_nonempty)
    then show "(k, ?f k) = (k, Count (length (rows_of key data k)))"
      by (simp add: tally_count rows_of_def)
  qed
  finally show ?thesis .
qed

text \<open>Keys that name no member of \<open>Object.prototype\<close> are read and written as own properties.\<close>

lemma is_member_proto: "is_member (ascii ''__proto__'')"
  by (simp add: is_member_def Object_prototype_names_def)

lemma obj_assign_plain: "\<not> is_member k \<Longrightarrow> obj_assign obj k v = obj_set obj k v"
  using is_member_proto by (auto simp: obj_assign_def)

lemma plus1_plain: "\<not> is_member k \<Longrightarrow> plus1 (obj_get g obj k) = count_upd (map_of obj k) r"
  by (simp add: obj_get_def count_upd_def plus1_def split: option.splits)

lemma no_member_keyD: "no_member_key key data \<Longrightarrow> k \<in> set (map key data) \<Longrightarrow> \<not> is_member k"
  by (auto simp: no_member_key_def list_ex_iff)

lemma count_pass_plain:
  assumes "no_member_key key data"
  shows "count_pass g key data = group_fold key count_upd data"
  unfolding count_pass_def group_fold_def
proof (rule fold_cong [OF refl refl])
  fix r assume "r \<in> set data"
  then have "key r \<in> set (map key data)" by simp
  then have "\<not> is_member (key r)" by (rule no_member_keyD [OF assms])
  then show "(\<lambda>counts. obj_assign counts (key r) (plus1 (obj_get g counts (key r)))) =
             (\<lambda>obj. obj_set obj (key r) (count_upd (map_of obj (key r)) r))"
    by (simp add: obj_assign_plain plus1_plain [where r = r])
qed

lemma getRouteName_plain: "\<not> is_member k \<Longrightarrow> getRouteName g k = Name (route_name k)"
  by (simp add: getRouteName_def obj_get_def route_name_def field_or_def truthy_field_def
      split: option.splits)

lemma byCompletion_eq:
  assumes "no_member_key completion_key data"
  shows "byCompletion g data =
     map (\<lambda>k. (if k = ascii ''1'' then ascii ''Complete'' else ascii ''Incomplete'',
                Count (length (rows_of completion_key data k))))
       (key_order (first_seen completion_key data))"
proof (cases "data = []")
  case True
  then show ?thesis by (simp add: byCompletion_def first_seen_def key_order_def)
next
  case False
  have "byCompletion g data =
          map (\<lambda>(k, v). (if k = ascii ''1'' then ascii ''Complete'' else ascii ''Incomplete'', v))
            (Object_entries (count_pass g completion_key data))"
    using False by (simp add: byCompletion_def count_pass_def completion_key_def Let_def)
  then show ?thesis by (simp add: count_pass_plain [OF assms] count_entries comp_def)
qed

lemma byTripType_eq:
  assumes "no_member_key trip_key data"
  shows "byTripType g data =
     map (\<lambda>k. (k, Count (length (rows_of trip_key data k)))) (key_order (first_seen trip_key data))"
proof (cases "data = []")
  case True
  then show ?thesis by (simp add: byTripType_def first_seen_def key_order_def)
next
  case False
  have "byTripType g data =
          map (\<lambda>(name, value). (name, value)) (Object_entries (count_pass g trip_key data))"
    using False by (simp add: byTripType_def count_pass_def trip_key_def Let_def)
  then show ?thesis by (simp add: count_pass_plain [OF assms] count_entries comp_def)
qed

text \<open>On numbers the comparator is consistent, and the sort is the stable sort by falling count.\<close>

lemma insert_cmp_insort:
  "insert_cmp by_count (k, Count (f k)) (map (\<lambda>k. (k, Count (f k))) ks) =
     map (\<lambda>k. (k, Count (f k))) (insort_key (\<lambda>k. - int (f k)) k ks)"
  by (induction ks) (auto simp: by_count_def)

lemma sort_cmp_sort_key:
  "sort_cmp by_count (map (\<lambda>k. (k, Count (f k))) ks) =
     map (\<lambda>k. (k, Count (f k))) (sort_key (\<lambda>k. - int (f k)) ks)"
  by (induction ks) (auto simp: sort_cmp_def insert_cmp_insort)

lemma consistent_counts: "consistent by_count (map (\<lambda>k. (k, Count (f k))) ks)"
  by (auto simp: consistent_def list_all_iff by_count_def)

lemma Array_sort_counts:
  "Array_sort by_count (map (\<lambda>k. (k, Count (f k))) ks) =
     Some (map (\<lambda>k. (k, Count (f k))) (sort_key (\<lambda>k. - int (f k)) ks))"
  by (simp add: Array_sort_def consistent_counts sort_cmp_sort_key)

lemma topRoutes_eq:
  assumes "no_member_key route_key data"
  shows "topRoutes g data =
     Some (map (\<lambda>k. (Name (route_name k), Count (length (rows_of route_key data k))))
             (take 10 (sort_key (\<lambda>k. - int (length (rows_of route_key data k)))
                         (key_order (first_seen route_key data)))))"
proof (cases "data = []")
  case True
  then show ?thesis by (simp add: topRoutes_def first_seen_def key_order_def)
next
  case False
  let ?ks = "take 10 (sort_key (\<lambda>k. - int (length (rows_of route_key data k)))
                         (key_order (first_seen route_key data)))"
  have "topRoutes g data =
          map_option (\<lambda>sorted. map (\<lambda>(route, count). (getRouteName g route, count)) (take 10 sorted))
            (Array_sort by_count (Object_entries (count_pass g route_key data)))"
    using False by (simp add: topRoutes_def count_pass_def route_key_def Let_def)
  then have "topRoutes g data =
          Some (map (\<lambda>k. (getRouteName g k, Count (length (rows_of route_key data k)))) ?ks)"
    by (simp add: count_pass_plain [OF assms] count_entries Array_sort_counts take_map comp_def)
  also have "map (\<lambda>k. (getRouteName g k, Count (length (rows_of route_key data k)))) ?ks =
             map (\<lambda>k. (Name (route_name k), Count (length (rows_of route_key data k)))) ?ks"
  proof (rule map_cong [OF refl])
    fix k assume "k \<in> set ?ks"
    then have "k \<in> set (sort_key (\<lambda>k. - int (length (rows_of route_key data k)))
                         (key_order (first_seen route_key data)))"
      by (rule in_set_takeD)
    then have "k \<in> set (map route_key data)" by (simp add: first_seen_def)
    then have "\<not> is_member k" by (rule no_member_keyD [OF assms])
    then show "(getRouteName g k, Count (length (rows_of route_key data k))) =
               (Name (route_name k), Count (length (rows_of route_key data k)))"
      by (simp add: getRouteName_plain)
  qed
  finally show ?thesis .
qed

lemma tally_lead:
  "tally lead_upd rows =
     (if rows = [] then None else Some (Fresh \<lparr>sum_acc = lead_sum rows, c_acc = length rows\<rparr>))"
  by (induction rows rule: rev_induct)
     (auto simp: tally_snoc lead_upd_def lead_sum_def, simp add: tally_def)

lemma lead_step_plain:
  assumes "\<not> is_member (route_key r)"
    and "map_of s (route_key r) = None \<or> (\<exists>acc. map_of s (route_key r) = Some (Fresh acc))"
  shows "lead_step r (s, g) = (obj_set s (route_key r) (lead_upd (map_of s (route_key r)) r), g)"
  using assms
  by (auto simp: lead_step_def route_key_def obj_get_def lead_upd_def obj_assign_plain Let_def)

lemma lead_pass_plain:
  "no_member_key route_key data \<Longrightarrow>
     fold lead_step data ([], g) = (group_fold route_key lead_upd data, g)"
proof (induction data rule: rev_induct)
  case Nil
  show ?case by simp
next
  case (snoc r data)
  let ?s = "group_fold route_key lead_upd data"
  from snoc.prems have p: "no_member_key route_key data" and m: "\<not> is_member (route_key r)"
    by (auto simp: no_member_key_def)
  have "map_of ?s (route_key r) = None \<or> (\<exists>acc. map_of ?s (route_key r) = Some (Fresh acc))"
    by (simp add: get_group_fold tally_lead)
  with m have "lead_step r (?s, g) = (obj_set ?s (route_key r) (lead_upd (map_of ?s (route_key r)) r), g)"
    by (rule lead_step_plain)
  then show ?case by (simp add: snoc.IH [OF p] group_fold_snoc)
qed

lemma avgLeadByRoute_fold:
  "avgLeadByRoute g data =
     (if data = [] then ([], g)
      else
        let (sums', g') = fold lead_step data ([], g)
        in (map (\<lambda>(route, obj).
                   (getRouteName g' route,
                    Number_text (toFixed1 (case obj of
                                             Fresh acc \<Rightarrow> fdiv_count (sum_acc acc) (c_acc acc)
                                           | Shared k \<Rightarrow> NaN))))
              (take 12 (Object_entries sums')),
            g'))"
  unfolding avgLeadByRoute_def lead_step_def ..

lemma avgLeadByRoute_eq:
  assumes "no_member_key route_key data"
  shows "avgLeadByRoute g data =
     (map (\<lambda>k. (Name (route_name k),
                 round1 (fdiv_count (lead_sum (rows_of route_key data k))
                           (length (rows_of route_key data k)))))
        (take 12 (key_order (first_seen route_key data))), g)"
proof (cases "data = []")
  case True
  then show ?thesis by (simp add: avgLeadByRoute_def first_seen_def key_order_def)
next
  case False
  let ?f = "\<lambda>k. the (tally lead_upd (filter (\<lambda>r. route_key r = k) data))"
  let ?ks = "key_order (first_seen route_key data)"
  let ?avg = "\<lambda>obj. round1 (case obj of Fresh acc \<Rightarrow> fdiv_count (sum_acc acc) (c_acc acc) | Shared k \<Rightarrow> NaN)"
  have "avgLeadByRoute g data =
          (map (\<lambda>(route, obj). (getRouteName g route, ?avg obj))
            (take 12 (Object_entries (group_fold route_key lead_upd data))), g)"
    using False by (simp add: avgLeadByRoute_fold lead_pass_plain [OF assms] round1_def)
  also have "Object_entries (group_fold route_key lead_upd data) = map (\<lambda>k. (k, ?f k)) ?ks"
    by (simp only: group_fold_eq Object_entries_map first_seen_def)
  also have "map (\<lambda>(route, obj). (getRouteName g route, ?avg obj)) (take 12 (map (\<lambda>k. (k, ?f k)) ?ks)) =
             map (\<lambda>k. (getRouteName g k, ?avg (?f k))) (take 12 ?ks)"
    by (simp add: take_map comp_def)
  also have "\<dots> = map (\<lambda>k. (Name (route_name k),
                round1 (fdiv_count (lead_sum (rows_of route_key data k))
                          (length (rows_of route_key data k))))) (take 12 ?ks)"
  proof (rule map_cong [OF refl])
    fix k assume "k \<in> set (take 12 ?ks)"
    then have "k \<in> set ?ks" by (rule in_set_takeD)
    then have k: "k \<in> set (map route_key data)" by (simp add: first_seen_def)
    then have "rows_of route_key data k \<noteq> []" by (rule rows_of_nonempty)
    moreover have "\<not> is_member k" using k by (rule no_member_keyD [OF assms])
    ultimately show "(getRouteName g k, ?avg (?f k)) =
          (Name (route_name k), round1 (fdiv_count (lead_sum (rows_of route_key data k))
                          (length (rows_of route_key data k))))"
      by (simp add: tally_lead rows_of_def getRouteName_plain)
  qed
  finally show ?thesis .
qed

section \<open>The shared objects\<close>

text \<open>
  No projection depends on the state of the shared objects: a property added to
  \<open>Object.prototype\<close> is read as \<open>NaN\<close>, which is falsy as \<open>undefined\<close> is. The state
  after a pass is the state before it, with the members that the pass has written to.
\<close>

lemma plus1_shared: "plus1 (obj_get g obj k) = plus1 (obj_get {} obj k)"
  by (simp add: obj_get_def plus1_def split: option.splits)

lemma count_pass_shared: "count_pass g key data = count_pass {} key data"
  unfolding count_pass_def by (subst plus1_shared) (rule refl)

lemma getRouteName_shared: "getRouteName g k = getRouteName {} k"
  by (simp add: getRouteName_def obj_get_def split: option.splits)

lemma byCompletion_fold:
  "byCompletion g data =
     (if data = [] then []
      else map (\<lambda>(k, v). (if k = ascii ''1'' then ascii ''Complete'' else ascii ''Incomplete'', v))
             (Object_entries (count_pass g completion_key data)))"
  by (simp add: byCompletion_def count_pass_def completion_key_def Let_def)

lemma byTripType_fold:
  "byTripType g data =
     (if data = [] then []
      else map (\<lambda>(name, value). (name, value)) (Object_entries (count_pass g trip_key data)))"
  by (simp add: byTripType_def count_pass_def trip_key_def Let_def)

lemma topRoutes_fold:
  "topRoutes g data =
     (if data = [] then Some []
      else map_option
             (\<lambda>sorted. map (\<lambda>(route, count). (getRouteName g route, count)) (take 10 sorted))
             (Array_sort by_count (Object_entries (count_pass g route_key data))))"
  by (simp add: topRoutes_def count_pass_def route_key_def Let_def)

lemma byCompletion_shared: "byCompletion g data = byCompletion {} data"
  unfolding byCompletion_fold by (subst count_pass_shared) (rule refl)

lemma byTripType_shared: "byTripType g data = byTripType {} data"
  unfolding byTripType_fold by (subst count_pass_shared) (rule refl)

lemma topRoutes_shared: "topRoutes g data = topRoutes {} data"
  unfolding topRoutes_fold by (subst count_pass_shared, subst getRouteName_shared) (rule refl)




section \<open>The memo cells\<close>









section \<open>The completion breakdown\<close>

lemma sum_indicator:
  "distinct ks \<Longrightarrow> sum_list (map (\<lambda>k. if a = k then 1 else 0) ks) = (if a \<in> set ks then 1 else (0::nat))"
  by (induction ks) auto

lemma sum_counts:
  "distinct ks \<Longrightarrow> set (map key data) \<subseteq> set ks \<Longrightarrow>
     sum_list (map (\<lambda>k. length (rows_of key data k)) ks) = length data"
proof (induction data)
  case Nil
  show ?case by (simp add: rows_of_def)
next
  case (Cons r data)
  have "(\<lambda>k. length (rows_of key (r # data) k)) =
        (\<lambda>k. (if key r = k then 1 else 0) + length (rows_of key data k))"
    by (auto simp: rows_of_def fun_eq_iff)
  then have "sum_list (map (\<lambda>k. length (rows_of key (r # data) k)) ks) =
        sum_list (map (\<lambda>k. if key r = k then 1 else 0) ks)
          + sum_list (map (\<lambda>k. length (rows_of key data k)) ks)"
    by (simp add: sum_list_addf)
  also have "sum_list (map (\<lambda>k. if key r = k then 1 else 0) ks) = (1::nat)"
    using Cons.prems by (simp add: sum_indicator)
  also have "sum_list (map (\<lambda>k. length (rows_of key data k)) ks) = length data"
    using Cons by simp
  finally show ?case by simp
qed

lemma filter_eq_distinct:
  "distinct ks \<Longrightarrow> filter (\<lambda>k. k = a) ks = (if a \<in> set ks then [a] else [])"
  by (induction ks) auto

lemma distinct_first_seen [simp]: "distinct (first_seen key data)"
  by (simp add: first_seen_def)

lemma set_first_seen [simp]: "set (first_seen key data) = set (map key data)"
  by (simp add: first_seen_def)

lemma completion_key_1:
  "completion_key r = ascii ''1'' \<longleftrightarrow> booking_complete r = Some (ascii ''1'')"
  by (simp add: completion_key_def ascii_def split: option.splits)

lemma labels_differ: "ascii ''Complete'' \<noteq> ascii ''Incomplete''"
  by (simp add: ascii_def)

lemma sum_count_num:
  "sum_list (map (count_num \<circ> snd) (map (\<lambda>k. (l k, Count (f k))) ks)) = sum_list (map f ks)"
  by (simp add: comp_def count_num_def)

lemma byCompletion_total:
  "no_member_key completion_key data \<Longrightarrow>
     sum_list (map (count_num \<circ> snd) (byCompletion g data)) = length data"
  by (simp only: byCompletion_eq sum_count_num) (simp add: sum_counts)

lemma byCompletion_complete:
  assumes p: "no_member_key completion_key data"
  shows "filter (\<lambda>e. fst e = ascii ''Complete'') (byCompletion g data) =
     (if complete_rows data = [] then []
      else [(ascii ''Complete'', Count (length (complete_rows data)))])"
proof -
  let ?ks = "key_order (first_seen completion_key data)"
  let ?h = "\<lambda>k. (if k = ascii ''1'' then ascii ''Complete'' else ascii ''Incomplete'',
                Count (length (rows_of completion_key data k)))"
  have r: "rows_of completion_key data (ascii ''1'') = complete_rows data"
    by (simp add: rows_of_def complete_rows_def completion_key_1)
  have "ascii ''1'' \<in> set ?ks \<longleftrightarrow> (\<exists>x\<in>set data. completion_key x = ascii ''1'')"
    by force
  then have m: "ascii ''1'' \<in> set ?ks \<longleftrightarrow> complete_rows data \<noteq> []"
    by (simp add: complete_rows_def filter_empty_conv completion_key_1)
  have "filter (\<lambda>e. fst e = ascii ''Complete'') (map ?h ?ks) =
          map ?h (filter (\<lambda>k. k = ascii ''1'') ?ks)"
    using labels_differ by (simp add: filter_map comp_def)
  also have "\<dots> = (if complete_rows data = [] then []
      else [(ascii ''Complete'', Count (length (complete_rows data)))])"
    using m by (simp add: filter_eq_distinct r)
  finally show ?thesis by (simp only: byCompletion_eq [OF p])
qed

lemma sum_list_split:
  "sum_list (map f xs) = sum_list (map f (filter P xs)) + (sum_list (map f (filter (\<lambda>x. \<not> P x) xs)) :: nat)"
  by (induction xs) auto

lemma byCompletion_labels:
  "no_member_key completion_key data \<Longrightarrow>
     set (map fst (byCompletion g data)) \<subseteq> {ascii ''Complete'', ascii ''Incomplete''}"
  by (auto simp: byCompletion_eq)

lemma byCompletion_numbers:
  "no_member_key completion_key data \<Longrightarrow>
     list_all (\<lambda>e. snd e = Count (count_num (snd e))) (byCompletion g data)"
  by (simp add: byCompletion_eq list_all_iff count_num_def)

lemma byCompletion_incomplete:
  assumes p: "no_member_key completion_key data"
  shows "sum_list (map (count_num \<circ> snd)
            (filter (\<lambda>e. fst e = ascii ''Incomplete'') (byCompletion g data))) =
     length data - length (complete_rows data)"
proof -
  let ?C = "\<lambda>e. fst e = ascii ''Complete''"
  let ?b = "byCompletion g data"
  have ne: "filter (\<lambda>e. \<not> ?C e) ?b = filter (\<lambda>e. fst e = ascii ''Incomplete'') ?b"
    using labels_differ by (intro filter_cong refl) (auto simp: byCompletion_eq [OF p])
  have "length data = sum_list (map (count_num \<circ> snd) (filter ?C ?b))
          + sum_list (map (count_num \<circ> snd) (filter (\<lambda>e. \<not> ?C e) ?b))"
    using sum_list_split [of "count_num \<circ> snd" ?b ?C] by (simp only: byCompletion_total [OF p])
  also have "sum_list (map (count_num \<circ> snd) (filter ?C ?b)) = length (complete_rows data)"
    by (simp add: byCompletion_complete [OF p] count_num_def)
  finally show ?thesis by (simp add: ne comp_def)
qed

lemma byCompletion_length:
  assumes p: "no_member_key completion_key data"
  shows "length (byCompletion g data) = card (set (map completion_key data))"
proof -
  have "length (byCompletion g data) = length (first_seen completion_key data)"
    by (simp add: byCompletion_eq [OF p])
  also have "\<dots> = card (set (first_seen completion_key data))"
    by (rule distinct_card [symmetric]) simp
  finally show ?thesis by simp
qed

lemma member_not_flag: "\<not> is_member (ascii ''0'')" "\<not> is_member (ascii ''1'')"
  by (simp_all add: is_member_def Object_prototype_names_def ascii_def)

lemma byCompletion_two:
  assumes "set (map booking_complete data) \<subseteq> {None, Some (ascii ''0''), Some (ascii ''1'')}"
  shows "no_member_key completion_key data" "length (byCompletion g data) \<le> 2"
proof -
  have s: "set (map completion_key data) \<subseteq> {ascii ''0'', ascii ''1''}"
    using assms by (auto simp: completion_key_def split: option.splits)
  then show p: "no_member_key completion_key data"
    using member_not_flag by (auto simp: no_member_key_def list_ex_iff)
  from s have "card (set (map completion_key data)) \<le> card {ascii ''0'', ascii ''1''}"
    by (intro card_mono) auto
  also have "\<dots> \<le> 2" by (simp add: card_insert_if)
  finally show "length (byCompletion g data) \<le> 2" by (simp add: byCompletion_length [OF p])
qed

section \<open>The ranking of the routes\<close>

lemma route_ranking_sorted:
  "sorted_wrt (\<lambda>j k. length (rows_of route_key data k) \<le> length (rows_of route_key data j))
     (route_ranking data)"
proof -
  have "sorted (map (\<lambda>k. - int (length (rows_of route_key data k))) (route_ranking data))"
    unfolding route_ranking_def by (rule sorted_sort_key)
  then show ?thesis by (simp add: sorted_map)
qed

lemma topRoutes_ranked:
  "no_member_key route_key data \<Longrightarrow>
     topRoutes g data =
       Some (map (\<lambda>k. (Name (route_name k), Count (length (rows_of route_key data k))))
               (take 10 (route_ranking data)))"
  by (simp only: topRoutes_eq route_ranking_def)

lemma topRoutes_sorted:
  assumes "no_member_key route_key data"
  shows "sorted_wrt (\<lambda>a b. count_num (snd b) \<le> count_num (snd a)) (the (topRoutes g data))"
proof -
  have "sorted_wrt (\<lambda>j k. length (rows_of route_key data k) \<le> length (rows_of route_key data j))
          (take 10 (route_ranking data))"
    using route_ranking_sorted by (rule sorted_wrt_take)
  then show ?thesis
    by (simp add: topRoutes_ranked [OF assms] sorted_wrt_map count_num_def)
qed

lemma route_ranking_stable:
  "filter (\<lambda>k. length (rows_of route_key data k) = n) (route_ranking data) =
   filter (\<lambda>k. length (rows_of route_key data k) = n) (key_order (first_seen route_key data))"
  using sort_key_stable [of "\<lambda>k. - int (length (rows_of route_key data k))" "- int n"
      "key_order (first_seen route_key data)"]
  by (simp add: route_ranking_def)

lemma key_order_first_seen:
  "\<not> list_ex is_array_index (map key data) \<Longrightarrow> key_order (first_seen key data) = first_seen key data"
  by (rule key_order_plain) (simp add: list_ex_iff)

section \<open>Rounding to a double\<close>

lemma bitlen_powi_bounds:
  fixes a :: int
  assumes "0 < a"
  shows "(2::rat) powi (bitlen a - 1) \<le> of_int a" and "of_int a < (2::rat) powi (bitlen a)"
proof -
  have b: "2 ^ nat (bitlen a - 1) \<le> a \<and> a < 2 ^ nat (bitlen a)"
    using bitlen_bounds [OF assms] .
  have p: "1 \<le> bitlen a" using assms by (simp add: bitlen_alt_def)
  have "(2::rat) powi (bitlen a - 1) = of_int (2 ^ nat (bitlen a - 1))"
    using p by (simp add: power_int_def)
  also have "\<dots> \<le> of_int a" using b by (simp only: of_int_le_iff)
  finally show "(2::rat) powi (bitlen a - 1) \<le> of_int a" .
  have "(of_int a :: rat) < of_int (2 ^ nat (bitlen a))" using b by (simp only: of_int_less_iff)
  also have "\<dots> = (2::rat) powi (bitlen a)"
    using p by (simp add: power_int_def)
  finally show "of_int a < (2::rat) powi (bitlen a)" .
qed

lemma ilog2_bounds:
  assumes "0 < q"
  shows "2 powi (ilog2 q) \<le> q \<and> q < 2 powi (ilog2 q + 1)"
proof -
  obtain a b where ab: "quotient_of q = (a, b)" by (cases "quotient_of q")
  have b: "0 < b" using ab by (rule quotient_of_denom_pos)
  have q: "q = of_int a / of_int b" using ab by (rule quotient_of_div)
  have a: "0 < a" using assms b q by (simp add: zero_less_divide_iff)
  let ?d = "bitlen a - bitlen b"
  have rb: "(0::rat) < of_int b" using b by simp
  have up: "q < 2 powi (?d + 1)"
  proof -
    have "of_int a < (2::rat) powi (bitlen a)" using a by (rule bitlen_powi_bounds)
    also have "\<dots> = 2 powi (?d + 1) * 2 powi (bitlen b - 1)"
      by (simp flip: power_int_add)
    also have "\<dots> \<le> 2 powi (?d + 1) * of_int b"
      using bitlen_powi_bounds(1) [OF b] by (intro mult_left_mono) auto
    finally show ?thesis using rb by (simp add: q pos_divide_less_eq)
  qed
  have lo: "2 powi (?d - 1) \<le> q"
  proof -
    have "2 powi (?d - 1) * of_int b \<le> 2 powi (?d - 1) * (2::rat) powi (bitlen b)"
      using bitlen_powi_bounds(2) [OF b] by (intro mult_left_mono) auto
    also have "\<dots> = 2 powi (bitlen a - 1)"
      by (simp flip: power_int_add)
    also have "\<dots> \<le> of_int a" using a by (rule bitlen_powi_bounds)
    finally show ?thesis using rb by (simp add: q pos_le_divide_eq)
  qed
  show ?thesis
  proof (cases "2 powi ?d \<le> q")
    case True
    then have "ilog2 q = ?d" by (simp add: ilog2_def ab)
    with True up show ?thesis by simp
  next
    case False
    then have "ilog2 q = ?d - 1" by (simp add: ilog2_def ab)
    with False lo show ?thesis by simp
  qed
qed

lemma ilog2_unique:
  assumes "2 powi l \<le> q" and "q < 2 powi (l + 1)"
  shows "ilog2 q = l"
proof -
  have "(0::rat) < 2 powi l" by simp
  with assms(1) have q: "0 < q" by linarith
  note b = ilog2_bounds [OF q]
  have "(2::rat) powi (ilog2 q) < 2 powi (l + 1)" using b assms(2) by linarith
  then have 1: "ilog2 q < l + 1"
    by (metis linorder_not_less one_le_numeral power_int_increasing)
  have "(2::rat) powi l < 2 powi (ilog2 q + 1)" using b assms(1) by linarith
  then have 2: "l < ilog2 q + 1"
    by (metis linorder_not_less one_le_numeral power_int_increasing)
  from 1 2 show ?thesis by linarith
qed

lemma round_half_even_of_int [simp]: "round_half_even (of_int k) = k"
  by (simp add: round_half_even_def)

lemma round_half_even_error: "\<bar>of_int (round_half_even x) - x\<bar> \<le> 1 / 2"
proof -
  have "of_int \<lfloor>x\<rfloor> \<le> x" "x < of_int \<lfloor>x\<rfloor> + 1" by linarith+
  then show ?thesis
    by (auto simp: round_half_even_def Let_def)
qed

lemma round_half_even_nonneg: "0 \<le> x \<Longrightarrow> 0 \<le> round_half_even x"
  by (auto simp: round_half_even_def Let_def)

lemma double_of_rat_unfold:
  "q \<noteq> 0 \<Longrightarrow> double_of_rat q =
     (if 2 ^ 1024 \<le> rounded_abs q then (if 0 < q then PInf else NInf)
      else Fin (if 0 < q then rounded_abs q else - rounded_abs q))"
  by (simp add: double_of_rat_def rounded_abs_def ulp_exp_def Let_def)

lemma rounded_abs_error: "\<bar>rounded_abs q - \<bar>q\<bar>\<bar> \<le> 2 powi (ulp_exp q - 1)"
proof -
  define p :: rat where "p = 2 powi ulp_exp q"
  define a :: rat where "a = of_int (round_half_even (\<bar>q\<bar> / p))"
  have p: "0 < p" by (simp add: p_def)
  have "a * p - \<bar>q\<bar> = (a - \<bar>q\<bar> / p) * p"
    using p by (simp add: field_simps)
  then have "\<bar>a * p - \<bar>q\<bar>\<bar> = \<bar>a - \<bar>q\<bar> / p\<bar> * p"
    using p by (simp add: abs_mult)
  also have "\<dots> \<le> 1 / 2 * p"
    using p round_half_even_error [of "\<bar>q\<bar> / p"] by (intro mult_right_mono) (auto simp: a_def)
  also have "\<dots> = 2 powi (ulp_exp q - 1)"
    by (simp add: p_def power_int_diff)
  finally show ?thesis by (simp add: rounded_abs_def a_def p_def)
qed

lemma rounded_abs_nonneg: "0 \<le> rounded_abs q"
  by (simp add: rounded_abs_def round_half_even_nonneg)

lemma double_of_rat_dyadic:
  assumes m: "\<bar>m\<bar> < 2 ^ 53" and e: "- 1074 \<le> e" and b: "\<bar>of_int m * 2 powi e\<bar> < (2::rat) ^ 1024"
  shows "double_of_rat (of_int m * 2 powi e) = Fin (of_int m * 2 powi e)"
proof (cases "m = 0")
  case True
  then show ?thesis by (simp add: double_of_rat_def)
next
  case False
  define q :: rat where "q = of_int m * 2 powi e"
  define u where "u = ulp_exp q"
  have q0: "q \<noteq> 0" using False by (simp add: q_def)
  have aq: "\<bar>q\<bar> = of_int \<bar>m\<bar> * 2 powi e" by (simp add: q_def abs_mult)
  have "0 < \<bar>q\<bar>" using q0 by simp
  note lb = ilog2_bounds [OF this]
  have "(2::rat) powi (ilog2 \<bar>q\<bar>) \<le> of_int \<bar>m\<bar> * 2 powi e" using lb aq by simp
  also have "\<dots> < 2 ^ 53 * 2 powi e"
  proof -
    have "(of_int \<bar>m\<bar> :: rat) < of_int (2 ^ 53)" using m by (simp only: of_int_less_iff)
    then show ?thesis by (intro mult_strict_right_mono) auto
  qed
  also have "\<dots> = 2 powi (53 + e)" by (simp add: power_int_add)
  finally have "ilog2 \<bar>q\<bar> < 53 + e"
    by (metis linorder_not_less one_le_numeral power_int_increasing)
  then have ue: "u \<le> e" using e by (simp add: ulp_exp_def u_def)
  define d where "d = nat (e - u)"
  have ed: "e = u + int d" using ue by (simp add: d_def)
  have pe: "(2::rat) powi e = 2 powi u * 2 ^ d"
    by (subst ed) (simp add: power_int_add)
  have "\<bar>q\<bar> / 2 powi u = of_int \<bar>m\<bar> * (2 powi u * 2 ^ d) / 2 powi u"
    by (simp only: aq pe)
  also have "\<dots> = of_int (\<bar>m\<bar> * 2 ^ d)" by simp
  finally have "round_half_even (\<bar>q\<bar> / 2 powi u) = \<bar>m\<bar> * 2 ^ d"
    by (simp only: round_half_even_of_int)
  then have "rounded_abs q = of_int (\<bar>m\<bar> * 2 ^ d) * 2 powi u"
    by (simp only: rounded_abs_def u_def)
  also have "\<dots> = of_int \<bar>m\<bar> * (2 powi u * 2 ^ d)" by simp
  also have "\<dots> = \<bar>q\<bar>" by (simp only: aq pe)
  finally have r: "rounded_abs q = \<bar>q\<bar>" .
  have "double_of_rat q = Fin q"
    using b q0 by (simp only: double_of_rat_unfold [OF q0] r) (auto simp: not_le q_def)
  then show ?thesis by (simp only: q_def)
qed

lemma double_of_rat_int:
  assumes "\<bar>n\<bar> < 2 ^ 53"
  shows "double_of_rat (of_int n) = Fin (of_int n)"
proof -
  have "(of_int \<bar>n\<bar> :: rat) < of_int (2 ^ 53)" using assms by (simp only: of_int_less_iff)
  also have "\<dots> < 2 ^ 1024" by simp
  finally have "\<bar>of_int n * 2 powi 0\<bar> < (2::rat) ^ 1024" by simp
  from double_of_rat_dyadic [OF assms _ this] show ?thesis by simp
qed

lemma round_half_even_near:
  assumes "\<bar>x - of_int m\<bar> < 1 / 2"
  shows "round_half_even x = m"
proof (cases "of_int m \<le> x")
  case True
  with assms have "\<lfloor>x\<rfloor> = m" by (intro floor_unique) auto
  with assms True show ?thesis by (auto simp: round_half_even_def Let_def)
next
  case False
  with assms have "\<lfloor>x\<rfloor> = m - 1" by (intro floor_unique) auto
  with assms False show ?thesis by (auto simp: round_half_even_def Let_def)
qed

lemma ulp_exp_normal:
  assumes "2 powi l \<le> \<bar>q\<bar>" and "\<bar>q\<bar> < 2 powi (l + 1)" and "- 1022 \<le> l"
  shows "ulp_exp q = l - 52"
  using assms by (simp add: ulp_exp_def ilog2_unique)

lemma pow53: "2 ^ 53 * 2 powi (l - 52) = (2::rat) powi (l + 1)"
proof -
  have "(2::rat) powi (53 + (l - 52)) = 2 powi 53 * 2 powi (l - 52)"
    by (rule power_int_add) simp
  moreover have "53 + (l - 52) = l + 1" by simp
  ultimately show ?thesis by simp
qed

lemma double_of_rat_near:
  assumes lo: "2 powi l \<le> q" and hi: "q < 2 powi (l + 1)" and l: "- 1022 \<le> l" "l < 1023"
    and m: "\<bar>q / 2 powi (l - 52) - of_int m\<bar> < 1 / 2"
  shows "double_of_rat q = Fin (of_int m * 2 powi (l - 52))"
    and "double_of_rat (- q) = Fin (- (of_int m * 2 powi (l - 52)))"
proof -
  define p :: rat where "p = 2 powi (l - 52)"
  have p: "0 < p" by (simp add: p_def)
  have "(0::rat) < 2 powi l" by simp
  with lo have q: "0 < q" by linarith
  have u: "ulp_exp q = l - 52" "ulp_exp (- q) = l - 52"
    using lo hi l q by (simp_all add: ulp_exp_normal)
  have r: "round_half_even (q / p) = m" using m by (intro round_half_even_near) (simp add: p_def)
  have ra: "rounded_abs q = of_int m * p" "rounded_abs (- q) = of_int m * p"
    using q r by (simp_all add: rounded_abs_def u p_def)
  have "q / p < 2 ^ 53"
  proof -
    have "q < 2 powi (l + 1)" by (rule hi)
    also have "\<dots> = 2 ^ 53 * p" by (simp only: p_def pow53)
    finally show ?thesis using p by (simp add: pos_divide_less_eq)
  qed
  moreover have "of_int m < q / p + 1 / 2" using m unfolding p_def by linarith
  ultimately have "(of_int m :: rat) < 2 ^ 53 + 1" by linarith
  also have "\<dots> = of_int (2 ^ 53 + 1)" by simp
  finally have "m < 2 ^ 53 + 1" by (simp only: of_int_less_iff)
  then have "m \<le> 2 ^ 53" by simp
  then have "(of_int m :: rat) \<le> of_int (2 ^ 53)" by (simp only: of_int_le_iff)
  then have "of_int m * p \<le> 2 ^ 53 * p" using p by (intro mult_right_mono) auto
  also have "\<dots> = 2 powi (l + 1)" by (simp only: p_def pow53)
  also have "\<dots> \<le> 2 powi 1023" using l by (intro power_int_increasing) auto
  also have "\<dots> < 2 ^ 1024" by simp
  finally have b: "\<not> 2 ^ 1024 \<le> of_int m * p" by simp
  have q0: "q \<noteq> 0" "- q \<noteq> 0" using q by simp_all
  show "double_of_rat q = Fin (of_int m * 2 powi (l - 52))"
    using b q by (simp add: double_of_rat_unfold [OF q0(1)] ra p_def)
  show "double_of_rat (- q) = Fin (- (of_int m * 2 powi (l - 52)))"
    using b q by (simp add: double_of_rat_unfold [OF q0(2)] ra p_def)
qed

section \<open>Reading back the text of \<open>toFixed(1)\<close>\<close>

lemma uint_digit:
  assumes "0 \<le> j" "j < 10"
  shows "uint (word_of_int (0x30 + j) :: 16 word) = 0x30 + j"
proof -
  have "uint (word_of_int (0x30 + j) :: 16 word) = take_bit LENGTH(16) (0x30 + j)"
    by (rule uint_word_of_int_eq)
  also have "\<dots> = 0x30 + j"
    using assms by (intro take_bit_int_eq_self) auto
  finally show ?thesis .
qed

lemma is_digit_iff: "is_digit c \<longleftrightarrow> 0x30 \<le> uint c \<and> uint c \<le> 0x39"
  by (simp add: is_digit_def word_le_def)

lemma is_digit_digit:
  assumes "0 \<le> j" "j < 10"
  shows "is_digit (word_of_int (0x30 + j))"
  unfolding is_digit_iff uint_digit [OF assms] using assms by simp

lemma digit_in_dec: "is_digit c \<Longrightarrow> digit_in 10 c = Some (uint c - 0x30)"
  by (auto simp: digit_in_def is_digit_def word_le_def)

lemma digit_in_digit:
  assumes "0 \<le> j" "j < 10"
  shows "digit_in 10 (word_of_int (0x30 + j)) = Some j"
  unfolding digit_in_dec [OF is_digit_digit [OF assms]] uint_digit [OF assms] by simp

lemma digits_in_append:
  "digits_in b acc (xs @ ys) =
     (case digits_in b acc xs of None \<Rightarrow> None | Some a \<Rightarrow> digits_in b a ys)"
  by (induction xs arbitrary: acc) (auto split: option.splits)

lemma decimal_digits_nonempty: "decimal_digits n \<noteq> []"
  by (subst decimal_digits.simps) simp

lemma decimal_digits_small: "n < 10 \<Longrightarrow> decimal_digits n = [word_of_int (0x30 + n)]"
  by (subst decimal_digits.simps) simp

lemma decimal_digits_are_digits: "0 \<le> n \<Longrightarrow> c \<in> set (decimal_digits n) \<Longrightarrow> is_digit c"
proof (induction n arbitrary: c rule: decimal_digits.induct)
  case (1 n)
  show ?case
  proof (cases "n < 10")
    case True
    with "1.prems" is_digit_digit [of n] show ?thesis by (simp add: decimal_digits_small)
  next
    case False
    then have "decimal_digits n = decimal_digits (n div 10) @ [word_of_int (0x30 + n mod 10)]"
      by (subst decimal_digits.simps) simp
    moreover have "is_digit (word_of_int (0x30 + n mod 10))"
      by (rule is_digit_digit) simp_all
    moreover have "0 \<le> n div 10" using "1.prems" by simp
    ultimately show ?thesis using "1.IH" [OF False] "1.prems" by auto
  qed
qed

lemma digits_in_decimal_digits:
  "0 \<le> n \<Longrightarrow> digits_in 10 acc (decimal_digits n) = Some (acc * 10 ^ length (decimal_digits n) + n)"
proof (induction n arbitrary: acc rule: decimal_digits.induct)
  case (1 n)
  show ?case
  proof (cases "n < 10")
    case True
    with "1.prems" digit_in_digit [of n] show ?thesis by (simp add: decimal_digits_small)
  next
    case False
    have e: "decimal_digits n = decimal_digits (n div 10) @ [word_of_int (0x30 + n mod 10)]"
      using False by (subst decimal_digits.simps) simp
    have d: "digit_in 10 (word_of_int (0x30 + n mod 10)) = Some (n mod 10)"
      by (rule digit_in_digit) simp_all
    have "0 \<le> n div 10" using "1.prems" by simp
    from "1.IH" [OF False this] d
    show ?thesis by (simp add: e digits_in_append algebra_simps)
  qed
qed

lemma digits_in_decimal_digits0: "0 \<le> n \<Longrightarrow> digits_in 10 0 (decimal_digits n) = Some n"
  by (simp add: digits_in_decimal_digits)

lemma digit_not_ws: "is_digit c \<Longrightarrow> \<not> is_ws c"
  by (auto simp: is_digit_def is_ws_def)

lemma trim_id:
  assumes s: "s \<noteq> []" and h: "\<not> is_ws (hd s)" and l: "\<not> is_ws (last s)"
  shows "trim s = s"
proof -
  have 1: "dropWhile is_ws s = s" using s h by (cases s) auto
  obtain ys y where y: "s = ys @ [y]" using s by (cases s rule: rev_cases) auto
  with l have "\<not> is_ws y" by simp
  then have 2: "dropWhile is_ws (rev s) = rev s" by (simp add: y)
  show ?thesis by (simp add: trim_def 1 2)
qed

text \<open>The text that \<open>toFixed(1)\<close> prints without sign: digits, a point, one digit.\<close>

lemma unsigned_decimal_fixed:
  assumes ds: "ds \<noteq> []" "\<forall>c\<in>set ds. is_digit c" and d: "is_digit d"
  shows "unsigned_decimal (ds @ [0x2E, d]) =
     Some (of_int (the (digits_in 10 0 ds)) + of_int (the (digits_in 10 0 [d])) / 10)"
proof -
  have nd: "\<not> is_digit 0x2E" by (simp add: is_digit_def)
  have t: "takeWhile is_digit (ds @ [0x2E, d]) = ds"
    using ds nd by (simp add: takeWhile_append2)
  have r: "dropWhile is_digit (ds @ [0x2E, d]) = [0x2E, d]"
    using ds nd by (simp add: dropWhile_append2)
  show ?thesis
    using ds d by (simp add: unsigned_decimal_def t r exponent_part_def Let_def)
qed

lemma Number_fixed:
  assumes n: "0 \<le> n"
  shows "Number (decimal_digits (n div 10) @ ascii ''.'' @ decimal_digits (n mod 10)) =
           double_of_rat (of_int n / 10)"
    and "Number (ascii ''-'' @ decimal_digits (n div 10) @ ascii ''.'' @ decimal_digits (n mod 10)) =
           double_of_rat (- (of_int n / 10))"
proof -
  define ds where "ds = decimal_digits (n div 10)"
  define d :: "16 word" where "d = word_of_int (0x30 + n mod 10)"
  define u where "u = ds @ [0x2E, d]"
  have n10: "0 \<le> n div 10" using n by simp
  have ds: "ds \<noteq> []" "\<forall>c\<in>set ds. is_digit c"
    using n10 by (auto simp: ds_def decimal_digits_nonempty decimal_digits_are_digits)
  have d: "is_digit d" unfolding d_def by (rule is_digit_digit) simp_all
  have dd: "decimal_digits (n mod 10) = [d]" by (simp add: decimal_digits_small d_def)
  have e1: "decimal_digits (n div 10) @ ascii ''.'' @ decimal_digits (n mod 10) = u"
    by (simp add: u_def ds_def dd ascii_def)
  have e2: "ascii ''-'' @ decimal_digits (n div 10) @ ascii ''.'' @ decimal_digits (n mod 10) = 0x2D # u"
    by (simp add: u_def ds_def dd ascii_def)
  have v1: "the (digits_in 10 0 ds) = n div 10"
    using n10 by (simp add: ds_def digits_in_decimal_digits0)
  have "digit_in 10 d = Some (n mod 10)"
    unfolding d_def by (rule digit_in_digit) simp_all
  then have v2: "the (digits_in 10 0 [d]) = n mod 10" by simp
  have "(of_int n :: rat) = of_int (10 * (n div 10) + n mod 10)" by simp
  also have "\<dots> = 10 * of_int (n div 10) + of_int (n mod 10)"
    by (simp only: of_int_add of_int_mult of_int_numeral)
  finally have "of_int (n div 10) + of_int (n mod 10) / 10 = (of_int n :: rat) / 10"
    by simp
  then have val: "unsigned_decimal u = Some (of_int n / 10)"
    unfolding u_def by (simp only: unsigned_decimal_fixed [OF ds d] v1 v2)
  obtain c cs where c: "ds = c # cs" using ds(1) by (cases ds) auto
  have cd: "is_digit c" using ds(2) c by simp
  define b where "b = hd (cs @ [0x2E, d])"
  have ub: "u = c # b # tl (cs @ [0x2E, d])" by (cases cs) (simp_all add: u_def c b_def)
  have "is_digit b \<or> b = 0x2E" using ds(2) c by (cases cs) (auto simp: b_def)
  then have rb: "b \<noteq> 0x78 \<and> b \<noteq> 0x58 \<and> b \<noteq> 0x6F \<and> b \<noteq> 0x4F \<and> b \<noteq> 0x62 \<and> b \<noteq> 0x42"
    by (auto simp: is_digit_def)
  have rp: "radix_prefix u = None" using rb by (simp add: ub radix_prefix_def)
  have rp': "radix_prefix (0x2D # u) = None" by (simp add: ub radix_prefix_def)
  have lu: "last u = d" "u \<noteq> []" "hd u = c" by (simp_all add: u_def c)
  have wd: "\<not> is_ws d" "\<not> is_ws c" using d cd by (simp_all add: digit_not_ws)
  have wm: "\<not> is_ws 0x2D" by (simp add: is_ws_def)
  have t1: "trim u = u" using lu wd by (intro trim_id) simp_all
  have t2: "trim (0x2D # u) = 0x2D # u"
    using lu wd wm by (intro trim_id) simp_all
  have ni: "u \<noteq> ascii ''Infinity''" using cd c by (auto simp: u_def ascii_def is_digit_def)
  have hs: "c \<noteq> 0x2D" "c \<noteq> 0x2B" using cd by (auto simp: is_digit_def)
  have s1: "str_decimal u = double_of_rat (of_int n / 10)"
    using ni hs lu by (simp add: str_decimal_def val Let_def)
  have s2: "str_decimal (0x2D # u) = double_of_rat (- (of_int n / 10))"
    using ni by (simp add: str_decimal_def val Let_def)
  show "Number (decimal_digits (n div 10) @ ascii ''.'' @ decimal_digits (n mod 10)) =
           double_of_rat (of_int n / 10)"
    using lu by (simp add: e1 Number_def t1 rp s1)
  show "Number (ascii ''-'' @ decimal_digits (n div 10) @ ascii ''.'' @ decimal_digits (n mod 10)) =
           double_of_rat (- (of_int n / 10))"
    by (simp add: e2 Number_def t2 rp' s2)
qed

lemma toFixed1_n_nonneg: "0 \<le> x \<Longrightarrow> 0 \<le> toFixed1_n x"
  by (simp add: toFixed1_n_def)

text \<open>\<open>+x.toFixed(1)\<close> reads back the tenths that were printed, with the sign of \<open>x\<close>.\<close>

lemma round1_Fin:
  assumes "\<bar>q\<bar> < 10 ^ 21"
  shows "round1 (Fin q) =
     double_of_rat ((if q < 0 then - 1 else 1) * of_int (toFixed1_n \<bar>q\<bar>) / 10)"
proof -
  define n where "n = toFixed1_n \<bar>q\<bar>"
  have n: "0 \<le> n" unfolding n_def by (rule toFixed1_n_nonneg) simp
  have t: "toFixed1 (Fin q) =
      Text ((if q < 0 then ascii ''-'' else [])
              @ decimal_digits (n div 10) @ ascii ''.'' @ decimal_digits (n mod 10))"
    using assms by (simp add: toFixed1_def n_def Let_def not_le)
  show ?thesis
  proof (cases "q < 0")
    case True
    then show ?thesis
      unfolding round1_def t Number_text_def n_def [symmetric]
      by (simp add: Number_fixed(2) [OF n])
  next
    case False
    then show ?thesis
      unfolding round1_def t Number_text_def n_def [symmetric]
      by (simp add: Number_fixed(1) [OF n])
  qed
qed

section \<open>Exact sums and quotients\<close>

lemma num_val_Fin [simp]: "num_val (Fin q) = q"
  by (simp add: num_val_def)

lemma is_int_numE:
  assumes "is_int_num x"
  obtains n where "x = Fin (of_int n)"
proof (cases x)
  case (Fin q)
  with assms obtain n where "q = of_int n" by (auto simp: is_int_num_def)
  with Fin have "x = Fin (of_int n)" by simp
  then show ?thesis by (rule that)
qed (use assms in \<open>simp_all add: is_int_num_def\<close>)

lemma foldl_fadd_int:
  assumes "list_all is_int_num xs"
    and "of_int \<bar>a\<bar> + sum_list (map (\<lambda>x. \<bar>num_val x\<bar>) xs) < 2 ^ 53"
  shows "foldl fadd (Fin (of_int a)) xs = Fin (of_int a + sum_list (map num_val xs))"
  using assms
proof (induction xs arbitrary: a)
  case Nil
  show ?case by simp
next
  case (Cons x xs)
  from Cons.prems(1) have "is_int_num x" by simp
  then obtain n where x: "x = Fin (of_int n)" by (rule is_int_numE)
  have s: "0 \<le> sum_list (map (\<lambda>x. \<bar>num_val x\<bar>) xs)" by (rule sum_list_nonneg) auto
  have b: "(of_int \<bar>a\<bar> :: rat) + of_int \<bar>n\<bar> + sum_list (map (\<lambda>x. \<bar>num_val x\<bar>) xs) < 2 ^ 53"
    using Cons.prems(2) by (simp add: x)
  have "(of_int \<bar>a + n\<bar> :: rat) \<le> of_int (\<bar>a\<bar> + \<bar>n\<bar>)" by (simp only: of_int_le_iff)
  then have an: "(of_int \<bar>a + n\<bar> :: rat) \<le> of_int \<bar>a\<bar> + of_int \<bar>n\<bar>" by simp
  with b s have "(of_int \<bar>a + n\<bar> :: rat) < of_int (2 ^ 53)" by simp
  then have "\<bar>a + n\<bar> < 2 ^ 53" by (simp only: of_int_less_iff)
  then have f: "fadd (Fin (of_int a)) x = Fin (of_int (a + n))"
    using double_of_rat_int [of "a + n"] by (simp add: x)
  have "of_int \<bar>a + n\<bar> + sum_list (map (\<lambda>x. \<bar>num_val x\<bar>) xs) < (2::rat) ^ 53"
    using an b by linarith
  moreover have "list_all is_int_num xs" using Cons.prems(1) by simp
  ultimately have ih: "foldl fadd (Fin (of_int (a + n))) xs =
      Fin (of_int (a + n) + sum_list (map num_val xs))"
    by (intro Cons.IH)
  have "foldl fadd (Fin (of_int a)) (x # xs) = foldl fadd (fadd (Fin (of_int a)) x) xs" by simp
  also have "\<dots> = foldl fadd (Fin (of_int (a + n))) xs" by (simp only: f)
  also have "\<dots> = Fin (of_int (a + n) + sum_list (map num_val xs))" by (rule ih)
  also have "\<dots> = Fin (of_int a + sum_list (map num_val (x # xs)))" by (simp add: x)
  finally show ?case .
qed

lemma toFixed1_n_eq:
  assumes "of_int n < x * 10 + 1 / 2" and "x * 10 + 1 / 2 < of_int n + 1"
  shows "toFixed1_n x = n"
  unfolding toFixed1_n_def using assms by (intro floor_unique) auto

text \<open>
  The quotient of an integer by a count, rounded to a double and then to tenths, has the
  tenths of the exact quotient, unless that lies halfway between two tenths.
\<close>

lemma quotient_tenths:
  fixes S :: int and c :: nat
  defines "q \<equiv> of_int S / of_int (int c)"
  assumes c: "0 < c" "c < 2 ^ 32" and S: "20 * \<bar>S\<bar> < 2 ^ 53" and S0: "S \<noteq> 0"
    and nt: "of_int \<lfloor>\<bar>q\<bar> * 10 + 1 / 2\<rfloor> \<noteq> \<bar>q\<bar> * 10 + 1 / 2"
  shows "rounded_abs q < 2 ^ 54" and "0 < rounded_abs q"
    and "toFixed1_n (rounded_abs q) = \<lfloor>\<bar>q\<bar> * 10 + 1 / 2\<rfloor>"
proof -
  define C :: rat where "C = of_int (int c)"
  define A :: rat where "A = of_int \<bar>S\<bar>"
  define n where "n = \<lfloor>\<bar>q\<bar> * 10 + 1 / 2\<rfloor>"
  have C: "1 \<le> C" "C < 2 ^ 32"
    using c by (simp_all add: C_def) 
  have "1 \<le> \<bar>S\<bar>" using S0 by simp
  then have "(of_int 1 :: rat) \<le> of_int \<bar>S\<bar>" by (simp only: of_int_le_iff)
  then have A1: "1 \<le> A" by (simp add: A_def)
  have "(of_int (20 * \<bar>S\<bar>) :: rat) < of_int (2 ^ 53)" using S by (simp only: of_int_less_iff)
  then have A2: "20 * A < 2 ^ 53" by (simp add: A_def)
  have aq: "\<bar>q\<bar> = A / C" using C by (simp add: q_def A_def C_def)
  have q1: "2 powi (- 32) \<le> \<bar>q\<bar>"
  proof -
    have "2 powi (- 32) * C \<le> 2 powi (- 32) * (2 ^ 32 :: rat)" using C by (intro mult_left_mono) auto
    also have "\<dots> = 1" by simp
    also have "\<dots> \<le> A" by (rule A1)
    finally show ?thesis using C by (simp add: aq pos_le_divide_eq)
  qed
  have q2: "\<bar>q\<bar> \<le> A"
  proof -
    have "A / C \<le> A / 1" using C A1 by (intro divide_left_mono) auto
    then show ?thesis by (simp add: aq)
  qed
  have "(0::rat) < 2 powi (- 32)" by simp
  with q1 have qpos: "0 < \<bar>q\<bar>" by linarith
  note lb = ilog2_bounds [OF qpos]
  have "(2::rat) powi (- 32) < 2 powi (ilog2 \<bar>q\<bar> + 1)" using q1 lb by linarith
  then have "- 32 < ilog2 \<bar>q\<bar> + 1"
    by (metis linorder_not_less one_le_numeral power_int_increasing)
  then have u: "ulp_exp q = ilog2 \<bar>q\<bar> - 52" by (simp add: ulp_exp_def)
  have "(2::rat) powi (ulp_exp q - 1) = 2 powi (ilog2 \<bar>q\<bar>) / 2 ^ 53"
    unfolding u using power_int_diff [of "2::rat" "ilog2 \<bar>q\<bar>" 53] by simp
  also have "\<dots> \<le> \<bar>q\<bar> / 2 ^ 53" using lb by (intro divide_right_mono) auto
  finally have err: "\<bar>rounded_abs q - \<bar>q\<bar>\<bar> \<le> \<bar>q\<bar> / 2 ^ 53"
    using rounded_abs_error [of q] by linarith
  have "\<bar>q\<bar> / 2 ^ 53 < \<bar>q\<bar> / 1"
    using qpos by (intro divide_strict_left_mono) auto
  then have small: "\<bar>q\<bar> / 2 ^ 53 < \<bar>q\<bar>" by simp
  have p54: "(2::rat) ^ 54 = 2 * 2 ^ 53" by simp
  show "rounded_abs q < 2 ^ 54" unfolding p54 using err small q2 A2 by linarith
  show "0 < rounded_abs q" using err small by linarith
  define N where "N = 20 * \<bar>S\<bar> + int c"
  define D where "D = 2 * int c"
  define x where "x = \<bar>q\<bar> * 10 + 1 / 2"
  have D: "0 < D" using c by (simp add: D_def)
  have rD: "(0::rat) < of_int D" using D by simp
  have x: "x = of_int N / of_int D"
    using C by (simp add: x_def aq A_def C_def N_def D_def field_simps)
  have fl: "of_int n \<le> x" "x < of_int n + 1" unfolding n_def x_def by linarith+
  have "of_int n \<noteq> x" using nt by (simp add: n_def x_def)
  with fl have "of_int n < x" by simp
  then have "(of_int (n * D) :: rat) < of_int N"
    using rD by (simp add: x pos_less_divide_eq)
  then have "n * D < N" by (simp only: of_int_less_iff)
  then have "n * D + 1 \<le> N" by simp
  then have "(of_int (n * D + 1) :: rat) \<le> of_int N" by (simp only: of_int_le_iff)
  then have "(of_int (n * D + 1) :: rat) / of_int D \<le> of_int N / of_int D"
    using rD by (intro divide_right_mono) auto
  moreover have "(of_int (n * D + 1) :: rat) / of_int D = of_int n + 1 / of_int D"
    using rD by (simp add: add_divide_distrib)
  ultimately have lo: "of_int n + 1 / of_int D \<le> x" by (simp only: x)
  have "(of_int N :: rat) < of_int ((n + 1) * D)"
    using fl(2) rD by (simp add: x pos_divide_less_eq)
  then have "N < (n + 1) * D" by (simp only: of_int_less_iff)
  then have "N + 1 \<le> (n + 1) * D" by simp
  then have "(of_int (N + 1) :: rat) \<le> of_int ((n + 1) * D)" by (simp only: of_int_le_iff)
  then have "(of_int (N + 1) :: rat) / of_int D \<le> of_int ((n + 1) * D) / of_int D"
    using rD by (intro divide_right_mono) auto
  moreover have "(of_int (N + 1) :: rat) / of_int D = x + 1 / of_int D"
    by (simp add: x add_divide_distrib)
  moreover have "(of_int ((n + 1) * D) :: rat) / of_int D = of_int n + 1"
    using rD by simp
  ultimately have hi: "x \<le> of_int n + 1 - 1 / of_int D" by linarith
  have "\<bar>q\<bar> / 2 ^ 53 * 10 = 20 * A / 2 ^ 53 * (1 / of_int D)"
    using C by (simp add: aq D_def C_def)
  also have "\<dots> < 1 * (1 / of_int D)"
    using A2 rD by (intro mult_strict_right_mono) auto
  finally have gap: "\<bar>q\<bar> / 2 ^ 53 * 10 < 1 / of_int D" by simp
  have "of_int n < rounded_abs q * 10 + 1 / 2" using err gap lo unfolding x_def by linarith
  moreover have "rounded_abs q * 10 + 1 / 2 < of_int n + 1" using err gap hi unfolding x_def by linarith
  ultimately have "toFixed1_n (rounded_abs q) = n" by (rule toFixed1_n_eq)
  then show "toFixed1_n (rounded_abs q) = \<lfloor>\<bar>q\<bar> * 10 + 1 / 2\<rfloor>" by (simp only: n_def)
qed

lemma quotient_round1:
  fixes S :: int and c :: nat
  assumes c: "0 < c" "c < 2 ^ 32" and S: "20 * \<bar>S\<bar> < 2 ^ 53"
    and nt: "of_int \<lfloor>\<bar>of_int S / of_int (int c) :: rat\<bar> * 10 + 1 / 2\<rfloor>
               \<noteq> \<bar>of_int S / of_int (int c) :: rat\<bar> * 10 + 1 / 2"
  shows "round1 (fdiv_count (Fin (of_int S)) c) =
           double_of_rat (round_half_away1 (of_int S / of_int (int c)))"
proof (cases "S = 0")
  case True
  have h: "\<lfloor>1 / 2 :: rat\<rfloor> = 0" by (rule floor_unique) simp_all
  have q: "of_int S / of_int (int c) = (0::rat)" by (simp add: True)
  have f: "fdiv_count (Fin (of_int S)) c = Fin 0"
    using c by (simp add: True double_of_rat_def)
  have r: "round_half_away1 0 = 0" by (simp add: round_half_away1_def h)
  have "round1 (Fin 0) = double_of_rat 0"
    using round1_Fin [of 0] by (simp add: toFixed1_n_def h)
  then show ?thesis by (simp only: f q r)
next
  case False
  define q :: rat where "q = of_int S / of_int (int c)"
  define v where "v = rounded_abs q"
  define n where "n = \<lfloor>\<bar>q\<bar> * 10 + 1 / 2\<rfloor>"
  have q0: "q \<noteq> 0" using False c by (simp add: q_def)
  note t = quotient_tenths [OF c S False nt, folded q_def v_def n_def]
  have "(2::rat) ^ 54 < 2 ^ 1024" by simp
  with t(1) have fin: "\<not> 2 ^ 1024 \<le> v" by linarith
  have "(2::rat) ^ 54 < 10 ^ 21" by simp
  with t(1) t(2) have small: "\<bar>v\<bar> < 10 ^ 21" "\<bar>- v\<bar> < 10 ^ 21" by simp_all
  have d: "double_of_rat q = Fin (if 0 < q then v else - v)"
    using fin by (simp add: double_of_rat_unfold [OF q0] v_def)
  have f: "fdiv_count (Fin (of_int S)) c = double_of_rat q"
    using c by (simp add: q_def)
  show ?thesis
  proof (cases "0 < q")
    case True
    have "round1 (Fin v) = double_of_rat (of_int n / 10)"
      using round1_Fin [OF small(1)] t(2) t(3) by (simp add: n_def)
    moreover have "round_half_away1 q = of_int n / 10"
      using True by (simp add: round_half_away1_def n_def)
    moreover have "double_of_rat q = Fin v" using True by (simp add: d)
    ultimately show ?thesis by (simp only: f q_def [symmetric])
  next
    case False
    with q0 have neg: "q < 0" by simp
    have "round1 (Fin (- v)) = double_of_rat (- 1 * of_int n / 10)"
      using round1_Fin [OF small(2)] t(2) t(3) by (simp add: n_def)
    moreover have "round_half_away1 q = - 1 * of_int n / 10"
      using neg by (simp add: round_half_away1_def n_def)
    moreover have "double_of_rat q = Fin (- v)" using False by (simp add: d)
    ultimately show ?thesis by (simp only: f q_def [symmetric])
  qed
qed

lemma round1_exact:
  assumes "\<bar>q\<bar> < 10 ^ 21"
  shows "round1 (Fin q) = double_of_rat (round_half_away1 q)"
  using round1_Fin [OF assms] by (simp add: round_half_away1_def toFixed1_n_def)

lemma quotient_round1_quarter:
  fixes S :: int and c :: nat
  assumes c: "0 < c" and S: "20 * \<bar>S\<bar> < 2 ^ 53"
    and qu: "of_int \<lfloor>(of_int S / of_int (int c) :: rat) * 4\<rfloor> = (of_int S / of_int (int c) :: rat) * 4"
  shows "round1 (fdiv_count (Fin (of_int S)) c) =
           double_of_rat (round_half_away1 (of_int S / of_int (int c)))"
proof -
  define q :: rat where "q = of_int S / of_int (int c)"
  define j where "j = \<lfloor>q * 4\<rfloor>"
  have C: "(1::rat) \<le> of_int (int c)" using c by simp
  have "\<bar>q\<bar> = of_int \<bar>S\<bar> / of_int (int c)" using c by (simp add: q_def)
  also have "\<dots> \<le> of_int \<bar>S\<bar> / 1" using C by (intro divide_left_mono) auto
  finally have q1: "\<bar>q\<bar> \<le> of_int \<bar>S\<bar>" by simp
  have "(of_int (20 * \<bar>S\<bar>) :: rat) < of_int (2 ^ 53)" using S by (simp only: of_int_less_iff)
  then have S': "20 * (of_int \<bar>S\<bar> :: rat) < 2 ^ 53" by simp
  have j: "of_int j = q * 4" using qu by (simp add: j_def q_def)
  then have "(of_int \<bar>j\<bar> :: rat) = \<bar>q\<bar> * 4" by (simp add: abs_mult flip: of_int_abs)
  also have "\<dots> < 2 ^ 53" using q1 S' by linarith
  also have "\<dots> = of_int (2 ^ 53)" by simp
  finally have jb: "\<bar>j\<bar> < 2 ^ 53" by (simp only: of_int_less_iff)
  have qj: "q = of_int j * 2 powi (- 2)" using j by simp
  have "\<bar>q\<bar> < 2 ^ 53" using q1 S' by linarith
  also have "\<dots> < (2::rat) ^ 1024" by simp
  finally have "\<bar>of_int j * 2 powi (- 2)\<bar> < (2::rat) ^ 1024" by (simp only: qj [symmetric])
  from double_of_rat_dyadic [OF jb _ this]
  have d: "double_of_rat q = Fin q" by (simp only: qj [symmetric])
  have "\<bar>q\<bar> < 2 ^ 53" using q1 S' by linarith
  also have "\<dots> < (10::rat) ^ 21" by simp
  finally have "round1 (Fin q) = double_of_rat (round_half_away1 q)" by (rule round1_exact)
  moreover have "fdiv_count (Fin (of_int S)) c = double_of_rat q"
    using c by (simp add: q_def)
  ultimately show ?thesis by (simp only: d q_def [symmetric])
qed

lemma int_sum:
  assumes "list_all is_int_num xs"
  shows "\<exists>S :: int. sum_list (map num_val xs) = of_int S
           \<and> (of_int \<bar>S\<bar> :: rat) \<le> sum_list (map (\<lambda>x. \<bar>num_val x\<bar>) xs)"
  using assms
proof (induction xs)
  case Nil
  show ?case by (rule exI [of _ 0]) simp
next
  case (Cons x xs)
  from Cons.prems have "is_int_num x" and xs: "list_all is_int_num xs" by simp_all
  then obtain n where x: "x = Fin (of_int n)" by (elim is_int_numE)
  from Cons.IH [OF xs] obtain S :: int where S: "sum_list (map num_val xs) = of_int S"
    "(of_int \<bar>S\<bar> :: rat) \<le> sum_list (map (\<lambda>x. \<bar>num_val x\<bar>) xs)"
    by blast
  have "(of_int \<bar>n + S\<bar> :: rat) \<le> of_int (\<bar>n\<bar> + \<bar>S\<bar>)" by (simp only: of_int_le_iff)
  then have "(of_int \<bar>n + S\<bar> :: rat) \<le> of_int \<bar>n\<bar> + sum_list (map (\<lambda>x. \<bar>num_val x\<bar>) xs)"
    using S(2) by simp
  then show ?case
    by (intro exI [of _ "n + S"]) (simp add: x S(1))
qed

lemma route_avg_exact:
  assumes "exact_leads rows"
  shows "round1 (fdiv_count (lead_sum rows) (length rows)) =
           double_of_rat (round_half_away1 (exact_mean rows))"
proof -
  let ?xs = "map lead rows"
  from assms have ne: "rows \<noteq> []" and len: "length rows < 2 ^ 32"
    and ints: "list_all is_int_num ?xs"
    and bound: "20 * sum_list (map (\<lambda>x. \<bar>num_val x\<bar>) ?xs) < 2 ^ 53"
    and nt: "of_int \<lfloor>\<bar>exact_mean rows\<bar> * 10 + 1 / 2\<rfloor> \<noteq> \<bar>exact_mean rows\<bar> * 10 + 1 / 2
          \<or> of_int \<lfloor>exact_mean rows * 4\<rfloor> = exact_mean rows * 4"
    by (simp_all add: exact_leads_def list_all_iff comp_def)
  from int_sum [OF ints] obtain S :: int where S: "sum_list (map num_val ?xs) = of_int S"
    "(of_int \<bar>S\<bar> :: rat) \<le> sum_list (map (\<lambda>x. \<bar>num_val x\<bar>) ?xs)"
    by blast
  have nn: "0 \<le> sum_list (map (\<lambda>x. \<bar>num_val x\<bar>) ?xs)" by (rule sum_list_nonneg) auto
  have "of_int \<bar>0\<bar> + sum_list (map (\<lambda>x. \<bar>num_val x\<bar>) ?xs) < 2 ^ 53"
    using bound nn by simp
  from foldl_fadd_int [OF ints this] S(1)
  have ls: "lead_sum rows = Fin (of_int S)" by (simp add: lead_sum_def)
  have em: "exact_mean rows = of_int S / of_int (int (length rows))"
    using S(1) by (simp add: exact_mean_def comp_def)
  have "(of_int (20 * \<bar>S\<bar>) :: rat) < of_int (2 ^ 53)" using S(2) bound by simp
  then have b: "20 * \<bar>S\<bar> < 2 ^ 53" by (simp only: of_int_less_iff)
  have c: "0 < length rows" using ne by simp
  from nt show ?thesis
  proof
    assume "of_int \<lfloor>\<bar>exact_mean rows\<bar> * 10 + 1 / 2\<rfloor> \<noteq> \<bar>exact_mean rows\<bar> * 10 + 1 / 2"
    then show ?thesis
      unfolding ls em by (intro quotient_round1 [OF c len b])
  next
    assume "of_int \<lfloor>exact_mean rows * 4\<rfloor> = exact_mean rows * 4"
    then show ?thesis
      unfolding ls em by (intro quotient_round1_quarter [OF c b])
  qed
qed

section \<open>The examples\<close>

lemmas parse_defs = Number_def trim_def is_ws_def radix_prefix_def str_decimal_def
  unsigned_decimal_def ascii_def is_digit_def digit_in_def digits_val_def exponent_part_def Let_def

lemma double_of_rat_numeral:
  "numeral k < (2 ^ 53 :: int) \<Longrightarrow> double_of_rat (numeral k) = Fin (numeral k)"
  using double_of_rat_int [of "numeral k"] by simp

lemma double_of_rat_0: "double_of_rat 0 = Fin 0"
  by (simp add: double_of_rat_def)

lemma floor_rat_numeral: "\<lfloor>(numeral a :: rat) / numeral b\<rfloor> = numeral a div numeral b"
  using floor_divide_of_int_eq [of "numeral a" "numeral b", where ?'a = rat] by simp

lemma Number_examples:
  "Number (ascii ''0'') = Fin 0" "Number (ascii ''3'') = Fin 3" "Number (ascii ''4'') = Fin 4"
  "Number (ascii ''5'') = Fin 5" "Number (ascii ''7'') = Fin 7" "Number (ascii ''10'') = Fin 10"
  "Number (ascii ''20'') = Fin 20" "Number (ascii ''Infinity'') = PInf"
  "Number (ascii ''abc'') = NaN"
  by (simp_all add: parse_defs double_of_rat_numeral double_of_rat_0)

lemma lead_mk_row: "lead (mk_row r t b l) = num_or (Number (ascii l)) (Fin 0)"
  by (simp add: lead_def mk_row_def Number_field_def)

lemma route_key_mk_row: "r \<noteq> [] \<Longrightarrow> route_key (mk_row r t b l) = ascii r"
  by (simp add: route_key_def mk_row_def field_or_def ascii_def)

lemma names:
  "route_name (ascii ''AKLDEL'') = ascii ''Auckland '' @ arrow @ ascii '' Delhi''"
  "route_name (ascii ''SYDBKK'') = ascii ''Sydney '' @ arrow @ ascii '' Bangkok''"
  "route_name (ascii ''1'') = ascii ''1''" "route_name (ascii ''2'') = ascii ''2''"
  by code_simp+

lemma plain_examples:
  "no_member_key completion_key scenario" "no_member_key trip_key scenario"
  "no_member_key route_key scenario" "no_member_key route_key tie_rows"
  "no_member_key route_key lead_rows" "no_member_key route_key [infinite_row]"
  by code_simp+

lemma leads:
  "lead (mk_row r t b ''0'') = Fin 0" "lead (mk_row r t b ''3'') = Fin 3"
  "lead (mk_row r t b ''4'') = Fin 4" "lead (mk_row r t b ''5'') = Fin 5"
  "lead (mk_row r t b ''7'') = Fin 7" "lead (mk_row r t b ''10'') = Fin 10"
  "lead (mk_row r t b ''20'') = Fin 20" "lead (mk_row r t b ''Infinity'') = PInf"
  by (simp_all add: lead_mk_row Number_examples num_or_def truthy_num_def)

lemma round1_examples:
  "round1 (Fin 15) = Fin 15" "round1 (Fin 5) = Fin 5" "round1 (Fin 3) = Fin 3" "round1 (Fin 4) = Fin 4"
  by (simp_all add: round1_exact round_half_away1_def double_of_rat_numeral floor_rat_numeral)

lemma round1_PInf: "round1 PInf = PInf"
  by (simp add: round1_def toFixed1_def Number_text_def Number_examples)

lemma scenario_avg:
  "avgLeadByRoute g scenario =
     ([(Name (ascii ''Auckland '' @ arrow @ ascii '' Delhi''), Fin 15),
       (Name (ascii ''Sydney '' @ arrow @ ascii '' Bangkok''), Fin 5)], g)"
proof -
  have k: "take 12 (key_order (first_seen route_key scenario)) = [ascii ''AKLDEL'', ascii ''SYDBKK'']"
    by code_simp
  have r: "rows_of route_key scenario (ascii ''AKLDEL'') =
             [mk_row ''AKLDEL'' ''RoundTrip'' ''1'' ''10'', mk_row ''AKLDEL'' ''RoundTrip'' ''0'' ''20'']"
      "rows_of route_key scenario (ascii ''SYDBKK'') = [mk_row ''SYDBKK'' ''OneWay'' ''1'' ''5'']"
    by (simp_all add: rows_of_def scenario_def route_key_mk_row) (simp_all add: ascii_def)
  show ?thesis
    unfolding avgLeadByRoute_eq [OF plain_examples(3)] k
    by (simp add: names r lead_sum_def leads double_of_rat_numeral round1_examples)
qed

lemma avgLeadByRoute_route_avg:
  "no_member_key route_key data \<Longrightarrow>
     avgLeadByRoute g data =
       (map (\<lambda>k. (Name (route_name k), route_avg data k))
          (take 12 (key_order (first_seen route_key data))), g)"
  by (simp only: avgLeadByRoute_eq route_avg_def)

lemma scenario_keys:
  "first_seen route_key scenario = [ascii ''AKLDEL'', ascii ''SYDBKK'']"
  "\<not> list_ex is_array_index (map route_key scenario)"
  by code_simp+

lemma scenario_rows:
  "rows_of route_key scenario (ascii ''AKLDEL'') =
     [mk_row ''AKLDEL'' ''RoundTrip'' ''1'' ''10'', mk_row ''AKLDEL'' ''RoundTrip'' ''0'' ''20'']"
  "rows_of route_key scenario (ascii ''SYDBKK'') = [mk_row ''SYDBKK'' ''OneWay'' ''1'' ''5'']"
  by (simp_all add: rows_of_def scenario_def route_key_mk_row) (simp_all add: ascii_def)

lemma scenario_exact:
  "exact_leads (rows_of route_key scenario (ascii ''AKLDEL''))"
  "exact_leads (rows_of route_key scenario (ascii ''SYDBKK''))"
  by (simp_all add: scenario_rows exact_leads_def exact_mean_def leads is_int_num_def)

lemma d35: "double_of_rat (7 / 20) = Fin (3152519739159347 / 9007199254740992)"
  using double_of_rat_near(1) [of "- 2" "7 / 20" 6305039478318694] by simp

lemma d3: "double_of_rat (3 / 10) = Fin (5404319552844595 / 18014398509481984)"
  using double_of_rat_near(1) [of "- 2" "3 / 10" 5404319552844595] by simp

lemma d4: "double_of_rat (2 / 5) = Fin (3602879701896397 / 9007199254740992)"
  using double_of_rat_near(1) [of "- 2" "2 / 5" 7205759403792794] by simp

lemma foldl_fadd_zeros: "foldl fadd (Fin 7) (replicate n (Fin 0)) = Fin 7"
  by (induction n) (simp_all add: double_of_rat_numeral)

lemma lead_rows_keys: "take 12 (key_order (first_seen route_key lead_rows)) = [ascii ''AKLDEL'']"
  "take 12 (first_seen route_key lead_rows) = [ascii ''AKLDEL'']"
  by code_simp+

lemma lead_rows_rows: "rows_of route_key lead_rows (ascii ''AKLDEL'') = lead_rows"
  by (simp add: rows_of_def lead_rows_def route_key_mk_row)

lemma lead_rows_avg:
  "avgLeadByRoute g lead_rows =
     ([(Name (ascii ''Auckland '' @ arrow @ ascii '' Delhi''), double_of_rat (3 / 10))], g)"
proof -
  have s: "lead_sum lead_rows = Fin 7"
    by (simp add: lead_sum_def lead_rows_def leads double_of_rat_numeral foldl_fadd_zeros)
  have l: "length lead_rows = 20" by (simp add: lead_rows_def)
  have "round1 (Fin (3152519739159347 / 9007199254740992)) = double_of_rat (3 / 10)"
    by (simp add: round1_exact round_half_away1_def floor_rat_numeral)
  then show ?thesis
    unfolding avgLeadByRoute_eq [OF plain_examples(5)] lead_rows_keys
    by (simp add: names lead_rows_rows s l d35)
qed

lemma lead_rows_claimed:
  "avgLead_claimed lead_rows =
     [(Name (ascii ''Auckland '' @ arrow @ ascii '' Delhi''), double_of_rat (2 / 5))]"
proof -
  have "sum_list (replicate n (0::rat)) = 0" for n by (induction n) simp_all
  then have m: "exact_mean lead_rows = 7 / 20"
    by (simp add: exact_mean_def lead_rows_def leads)
  show ?thesis
    unfolding avgLead_claimed_def lead_rows_keys
    by (simp add: names lead_rows_rows round_half_away1_def m)
qed

lemma tie_rows_avg:
  "avgLeadByRoute g tie_rows = ([(Name (ascii ''1''), Fin 4), (Name (ascii ''2''), Fin 3)], g)"
proof -
  have k: "take 12 (key_order (first_seen route_key tie_rows)) = [ascii ''1'', ascii ''2'']"
    by code_simp
  have r: "rows_of route_key tie_rows (ascii ''1'') = [mk_row ''1'' ''OneWay'' ''1'' ''4'']"
     "rows_of route_key tie_rows (ascii ''2'') = [mk_row ''2'' ''OneWay'' ''1'' ''3'']"
    by (simp_all add: rows_of_def tie_rows_def route_key_mk_row) (simp_all add: ascii_def)
  show ?thesis
    unfolding avgLeadByRoute_eq [OF plain_examples(4)] k
    by (simp add: names r lead_sum_def leads double_of_rat_numeral round1_examples)
qed

text \<open>
  A row whose route is \<open>__proto__\<close> leaves \<open>sums\<close> as it is and writes to
  \<open>Object.prototype\<close>.
\<close>

lemma lead_step_proto:
  assumes "route_key r = ascii ''__proto__''" and "map_of s (ascii ''__proto__'') = None"
  shows "lead_step r (s, g) = (s, insert (ascii ''__proto__'') g)"
  using assms is_member_proto
  by (simp add: lead_step_def route_key_def obj_get_def obj_assign_def Let_def)

lemma proto_rows_pass:
  "fold lead_step proto_rows ([], {}) =
     ([(ascii ''AKLDEL'', Fresh \<lparr>sum_acc = Fin 4, c_acc = 1\<rparr>)], {ascii ''__proto__''})"
proof -
  let ?r1 = "mk_row ''__proto__'' ''OneWay'' ''__proto__'' ''3''"
  let ?r2 = "mk_row ''AKLDEL'' ''OneWay'' ''1'' ''4''"
  have k: "route_key ?r1 = ascii ''__proto__''" "route_key ?r2 = ascii ''AKLDEL''"
    by (simp_all add: route_key_mk_row)
  have m: "\<not> is_member (route_key ?r2)" unfolding k by code_simp
  have 1: "lead_step ?r1 ([], {}) = ([], {ascii ''__proto__''})"
    by (rule lead_step_proto) (simp_all add: k)
  have 2: "lead_step ?r2 ([], {ascii ''__proto__''}) =
             (obj_set [] (route_key ?r2) (lead_upd (map_of [] (route_key ?r2)) ?r2), {ascii ''__proto__''})"
    by (rule lead_step_plain [OF m]) simp
  show ?thesis
    by (simp add: proto_rows_def 1 2 k lead_upd_def leads double_of_rat_numeral)
qed

lemma proto_rows_avg:
  "avgLeadByRoute {} proto_rows =
     ([(Name (ascii ''Auckland '' @ arrow @ ascii '' Delhi''), Fin 4)], {ascii ''__proto__''})"
proof -
  have e: "Object_entries [(ascii ''AKLDEL'', v)] = [(ascii ''AKLDEL'', v)]" for v :: sval
    by code_simp
  have m: "\<not> is_member (ascii ''AKLDEL'')" by code_simp
  have n: "proto_rows \<noteq> []" by (simp add: proto_rows_def)
  show ?thesis
    using n
    by (simp add: avgLeadByRoute_fold proto_rows_pass e getRouteName_plain [OF m] names
        round1_def [symmetric] double_of_rat_numeral round1_examples)
qed

section \<open>The filter\<close>

text \<open>
  C1. For every store and selection, \<open>filteredData\<close> is the store filtered by the
  predicate of the specification: the route selection is empty or the row's route equals
  it, and the trip type selection is empty or the row's trip type equals it. The rows
  kept are in the order of the store, and their number is the number of rows that
  satisfy the predicate. The function is total: the callback reads two properties of an
  object and compares strings, and nothing in it can throw.
\<close>

theorem filteredData_selects:
  "filteredData data r t =
     filter (\<lambda>row. (r = [] \<or> route row = Some r) \<and> (t = [] \<or> trip_type row = Some t)) data
   \<and> length (filteredData data r t) =
     length (filter (\<lambda>row. (r = [] \<or> route row = Some r) \<and> (t = [] \<or> trip_type row = Some t)) data)"
proof -
  have "keep_row r t = (\<lambda>row. (r = [] \<or> route row = Some r) \<and> (t = [] \<or> trip_type row = Some t))"
    by (auto simp: keep_row_def fun_eq_iff)
  then show ?thesis by (simp add: filteredData_def)
qed

text \<open>
  C10. With both selections empty the filter returns the store itself, rows without a
  route or a trip type included.
\<close>

theorem filteredData_no_selection: "filteredData data [] [] = data"
  by (simp add: filteredData_def keep_row_def)

section \<open>The same selection twice\<close>




section \<open>The facet lists\<close>

lemma field_values:
  "set (map the (filter truthy_field fs)) = {s. s \<noteq> [] \<and> Some s \<in> set fs}"
  by (auto simp: truthy_field_def image_iff split: option.splits) force

text \<open>
  C7. \<open>routes\<close> and \<open>tripTypes\<close> are sorted in ascending order, have no duplicates, and
  hold exactly the non-empty values of the field that occur in the store: a missing or
  empty value is in neither list.
\<close>

theorem facets_sorted_distinct:
  "sorted (routes data) \<and> distinct (routes data)
   \<and> set (routes data) = {s. s \<noteq> [] \<and> Some s \<in> set (map route data)}
   \<and> sorted (tripTypes data) \<and> distinct (tripTypes data)
   \<and> set (tripTypes data) = {s. s \<noteq> [] \<and> Some s \<in> set (map trip_type data)}"
  unfolding routes_def tripTypes_def
  by (simp only: sorted_sort distinct_sort distinct_Set_from set_sort set_Set_from field_values simp_thms)

section \<open>Empty data\<close>

text \<open>
  C8. For no rows each of the four projections is the empty array, whatever the state of
  the shared objects, which stays as it is; and the statistics have the total 0 and the
  completion rate \<open>"0"\<close>.
\<close>

theorem empty_data:
  "byCompletion g [] = [] \<and> byTripType g [] = [] \<and> topRoutes g [] = Some []
   \<and> avgLeadByRoute g [] = ([], g)
   \<and> total (stats []) = 0 \<and> completionRate (stats []) = Text (ascii ''0'')"
  by (simp add: byCompletion_def byTripType_def topRoutes_def avgLeadByRoute_def stats_def)

section \<open>The buckets of the completion breakdown\<close>

text \<open>
  C2, as the code has it. Let no value of \<open>booking_complete\<close> name a member of
  \<open>Object.prototype\<close>. Then the completion breakdown has one entry for each distinct
  value of \<open>booking_complete\<close> (a missing value counts as \<open>"0"\<close>), and the values of the
  entries are numbers that add up to the number of rows. The entry of \<open>"1"\<close>, when there
  is a completed row, is the only one labelled \<open>Complete\<close>, and its value is the number of
  completed rows; every other entry is labelled \<open>Incomplete\<close>, and their values add up to
  the number of the other rows. When every \<open>booking_complete\<close> is \<open>"0"\<close>, \<open>"1"\<close> or
  missing, there are at most two entries.
\<close>

theorem byCompletion_buckets:
  assumes "no_member_key completion_key data"
  shows "list_all (\<lambda>e. snd e = Count (count_num (snd e))) (byCompletion g data)
   \<and> sum_list (map (count_num \<circ> snd) (byCompletion g data)) = length data
   \<and> filter (\<lambda>e. fst e = ascii ''Complete'') (byCompletion g data) =
       (if complete_rows data = [] then []
        else [(ascii ''Complete'', Count (length (complete_rows data)))])
   \<and> sum_list (map (count_num \<circ> snd)
        (filter (\<lambda>e. fst e = ascii ''Incomplete'') (byCompletion g data))) =
       length data - length (complete_rows data)
   \<and> set (map fst (byCompletion g data)) \<subseteq> {ascii ''Complete'', ascii ''Incomplete''}
   \<and> length (byCompletion g data) = card (set (map completion_key data))
   \<and> (set (map booking_complete data) \<subseteq> {None, Some (ascii ''0''), Some (ascii ''1'')} \<longrightarrow>
        length (byCompletion g data) \<le> 2)"
  using assms byCompletion_numbers byCompletion_total byCompletion_complete byCompletion_incomplete
    byCompletion_labels byCompletion_length byCompletion_two(2) by blast

text \<open>The scenario of three rows satisfies the hypotheses: its flags are \<open>1\<close>, \<open>0\<close>, \<open>1\<close>.\<close>

theorem byCompletion_buckets_witness:
  "no_member_key completion_key scenario
   \<and> set (map booking_complete scenario) \<subseteq> {None, Some (ascii ''0''), Some (ascii ''1'')}
   \<and> length (byCompletion {} scenario) \<le> 2
   \<and> sum_list (map (count_num \<circ> snd) (byCompletion {} scenario)) = length scenario"
proof -
  have h: "set (map booking_complete scenario) \<subseteq> {None, Some (ascii ''0''), Some (ascii ''1'')}"
    by (simp add: scenario_def mk_row_def)
  have p: "no_member_key completion_key scenario" by (rule plain_examples)
  from h p byCompletion_buckets [OF p, of "{}"] show ?thesis by blast
qed

text \<open>
  C2 as stated fails: with the flags \<open>1\<close>, \<open>0\<close> and the empty string in three rows the
  breakdown has three entries, two of them labelled \<open>Incomplete\<close>. And a row whose flag is
  \<open>__proto__\<close> is in no entry: of two rows one is counted.
\<close>

theorem byCompletion_three_counterexample:
  "byCompletion {} blank_rows =
     [(ascii ''Incomplete'', Count 1), (ascii ''Complete'', Count 1), (ascii ''Incomplete'', Count 1)]
   \<and> \<not> length (byCompletion {} blank_rows) \<le> 2
   \<and> byCompletion {} proto_rows = [(ascii ''Complete'', Count 1)]
   \<and> length proto_rows = 2"
  by code_simp

section \<open>The scenario of three rows\<close>

text \<open>
  C3, as the code has it. For the three rows of the scenario, unfiltered, and in every
  state of the shared objects: the completion breakdown is
  \<open>[{Incomplete, 1}, {Complete, 2}]\<close>, since \<open>Object.entries\<close> lists the keys \<open>"0"\<close> and
  \<open>"1"\<close>, which are array indices, in ascending order although \<open>"1"\<close> was created first;
  the trip types are \<open>[{RoundTrip, 2}, {OneWay, 1}]\<close>; the top routes are Auckland to
  Delhi with 2 and Sydney to Bangkok with 1; the average leads are 15 for Auckland to
  Delhi and 5 for Sydney to Bangkok.
\<close>

theorem scenario_projections:
  "byCompletion g scenario = [(ascii ''Incomplete'', Count 1), (ascii ''Complete'', Count 2)]
   \<and> byTripType g scenario = [(ascii ''RoundTrip'', Count 2), (ascii ''OneWay'', Count 1)]
   \<and> topRoutes g scenario =
       Some [(Name (ascii ''Auckland '' @ arrow @ ascii '' Delhi''), Count 2),
             (Name (ascii ''Sydney '' @ arrow @ ascii '' Bangkok''), Count 1)]
   \<and> avgLeadByRoute g scenario =
       ([(Name (ascii ''Auckland '' @ arrow @ ascii '' Delhi''), Fin 15),
         (Name (ascii ''Sydney '' @ arrow @ ascii '' Bangkok''), Fin 5)], g)"
proof -
  have "byCompletion {} scenario = [(ascii ''Incomplete'', Count 1), (ascii ''Complete'', Count 2)]"
    by code_simp
  then have 1: "byCompletion g scenario = [(ascii ''Incomplete'', Count 1), (ascii ''Complete'', Count 2)]"
    by (simp only: byCompletion_shared [of g])
  have "byTripType {} scenario = [(ascii ''RoundTrip'', Count 2), (ascii ''OneWay'', Count 1)]"
    by code_simp
  then have 2: "byTripType g scenario = [(ascii ''RoundTrip'', Count 2), (ascii ''OneWay'', Count 1)]"
    by (simp only: byTripType_shared [of g])
  have "topRoutes {} scenario =
       Some [(Name (ascii ''Auckland '' @ arrow @ ascii '' Delhi''), Count 2),
             (Name (ascii ''Sydney '' @ arrow @ ascii '' Bangkok''), Count 1)]"
    by code_simp
  then have 3: "topRoutes g scenario =
       Some [(Name (ascii ''Auckland '' @ arrow @ ascii '' Delhi''), Count 2),
             (Name (ascii ''Sydney '' @ arrow @ ascii '' Bangkok''), Count 1)]"
    by (simp only: topRoutes_shared [of g])
  from 1 2 3 scenario_avg show ?thesis by (intro conjI)
qed

text \<open>C3 as stated fails in the order of the completion breakdown.\<close>

theorem scenario_completion_counterexample:
  "byCompletion {} scenario \<noteq> [(ascii ''Complete'', Count 2), (ascii ''Incomplete'', Count 1)]"
  by code_simp

section \<open>The top routes\<close>

text \<open>
  C4, as the code has it. Let no route name a member of \<open>Object.prototype\<close>. Then
  \<open>topRoutes\<close> counts the rows of each route key (\<open>Unknown\<close> for a missing or empty
  route), ranks the keys by falling count, keeps the first ten and gives each its display
  name. It has at most ten entries and its counts never increase. The ranking holds
  every route key once; among keys of equal count it keeps the order of
  \<open>Object.entries\<close>: keys that are array indices first, by value, then the other keys by
  their first row. When no route key is an array index, that is the order of the first
  rows, and \<open>topRoutes\<close> is as the claim states it.
\<close>

theorem topRoutes_ranking:
  assumes "no_member_key route_key data"
  shows "topRoutes g data =
     Some (map (\<lambda>k. (Name (route_name k), Count (length (rows_of route_key data k))))
             (take 10 (route_ranking data)))
   \<and> length (the (topRoutes g data)) \<le> 10
   \<and> sorted_wrt (\<lambda>a b. count_num (snd b) \<le> count_num (snd a)) (the (topRoutes g data))
   \<and> distinct (route_ranking data) \<and> set (route_ranking data) = set (map route_key data)
   \<and> (\<forall>n. filter (\<lambda>k. length (rows_of route_key data k) = n) (route_ranking data) =
            filter (\<lambda>k. length (rows_of route_key data k) = n)
              (key_order (first_seen route_key data)))
   \<and> (\<not> list_ex is_array_index (map route_key data) \<longrightarrow>
        topRoutes g data = Some (topRoutes_first_seen data))"
proof -
  note 1 = topRoutes_ranked [OF assms, of g]
  have 2: "length (the (topRoutes g data)) \<le> 10" by (simp add: 1)
  have 3: "distinct (route_ranking data)" "set (route_ranking data) = set (map route_key data)"
    by (simp_all add: route_ranking_def)
  have 4: "\<not> list_ex is_array_index (map route_key data) \<longrightarrow>
        topRoutes g data = Some (topRoutes_first_seen data)"
    by (simp add: topRoutes_eq [OF assms] topRoutes_first_seen_def key_order_first_seen)
  from 1 2 3 4 topRoutes_sorted [OF assms] route_ranking_stable show ?thesis by blast
qed

text \<open>
  The route keys of the scenario, \<open>AKLDEL\<close> and \<open>SYDBKK\<close>, name no member of
  \<open>Object.prototype\<close> and are no array indices.
\<close>

theorem topRoutes_ranking_witness:
  "no_member_key route_key scenario
   \<and> \<not> list_ex is_array_index (map route_key scenario)
   \<and> topRoutes {} scenario = Some (topRoutes_first_seen scenario)
   \<and> length (the (topRoutes {} scenario)) \<le> 10"
proof -
  have h: "\<not> list_ex is_array_index (map route_key scenario)" by code_simp
  have p: "no_member_key route_key scenario" by (rule plain_examples)
  from h p topRoutes_ranking [OF p, of "{}"] show ?thesis by blast
qed

text \<open>
  C4 as stated fails: of the routes \<open>"2"\<close> and \<open>"1"\<close>, one row each and in this order,
  \<open>"1"\<close> is listed first. And a route \<open>__proto__\<close> is not counted at all.
\<close>

theorem topRoutes_tie_counterexample:
  "topRoutes {} tie_rows = Some [(Name (ascii ''1''), Count 1), (Name (ascii ''2''), Count 1)]
   \<and> first_seen route_key tie_rows = [ascii ''2'', ascii ''1'']
   \<and> topRoutes {} tie_rows \<noteq> Some (topRoutes_first_seen tie_rows)
   \<and> topRoutes {} proto_rows = Some [(Name (ascii ''Auckland '' @ arrow @ ascii '' Delhi''), Count 1)]
   \<and> first_seen route_key proto_rows = [ascii ''__proto__'', ascii ''AKLDEL'']"
  by code_simp

section \<open>The average lead\<close>

text \<open>
  C5, as the code has it. Let no route name a member of \<open>Object.prototype\<close>. Then
  \<open>avgLeadByRoute\<close> leaves the shared objects as they are, and lists the first twelve
  route keys (\<open>Unknown\<close> for a missing or empty route) in the order of \<open>Object.entries\<close>,
  not sorted by value, each with its display name and its average: the sum of the leads
  of its rows, added up in double precision in the order of the rows, divided by their
  number, printed with one decimal and read back. There are at most twelve entries. When
  no route key is an array index, the keys are the first twelve distinct ones in the
  order of their first rows. For a route whose rows are \<open>exact_leads\<close>, the average is the
  double nearest to the exact mean rounded to one decimal place, half away from zero.
  When both hold for all routes, \<open>avgLeadByRoute\<close> is as the claim states it.
\<close>

theorem avgLeadByRoute_groups:
  assumes "no_member_key route_key data"
  shows "avgLeadByRoute g data =
     (map (\<lambda>k. (Name (route_name k), route_avg data k))
        (take 12 (key_order (first_seen route_key data))), g)
   \<and> length (fst (avgLeadByRoute g data)) \<le> 12
   \<and> (\<not> list_ex is_array_index (map route_key data) \<longrightarrow>
        fst (avgLeadByRoute g data) =
          map (\<lambda>k. (Name (route_name k), route_avg data k)) (take 12 (first_seen route_key data)))
   \<and> (\<forall>k. exact_leads (rows_of route_key data k) \<longrightarrow>
          route_avg data k =
            double_of_rat (round_half_away1 (exact_mean (rows_of route_key data k))))
   \<and> (\<not> list_ex is_array_index (map route_key data)
        \<and> list_all (\<lambda>k. exact_leads (rows_of route_key data k)) (first_seen route_key data) \<longrightarrow>
        fst (avgLeadByRoute g data) = avgLead_claimed data)"
proof -
  note 0 = avgLeadByRoute_route_avg [OF assms, of g]
  have 1: "length (fst (avgLeadByRoute g data)) \<le> 12" by (simp add: 0)
  have 2: "fst (avgLeadByRoute g data) =
          map (\<lambda>k. (Name (route_name k), route_avg data k)) (take 12 (first_seen route_key data))"
    if "\<not> list_ex is_array_index (map route_key data)"
    using that by (simp add: 0 key_order_first_seen)
  have 3: "route_avg data k =
            double_of_rat (round_half_away1 (exact_mean (rows_of route_key data k)))"
    if "exact_leads (rows_of route_key data k)" for k
    unfolding route_avg_def using that by (rule route_avg_exact)
  have 4: "fst (avgLeadByRoute g data) = avgLead_claimed data"
    if a: "\<not> list_ex is_array_index (map route_key data)"
      and b: "list_all (\<lambda>k. exact_leads (rows_of route_key data k)) (first_seen route_key data)"
  proof -
    have "map (\<lambda>k. (Name (route_name k), route_avg data k)) (take 12 (first_seen route_key data)) =
          map (\<lambda>k. (Name (route_name k),
                double_of_rat (round_half_away1 (exact_mean (rows_of route_key data k)))))
            (take 12 (first_seen route_key data))"
    proof (rule map_cong [OF refl])
      fix k assume "k \<in> set (take 12 (first_seen route_key data))"
      then have "k \<in> set (first_seen route_key data)" by (rule in_set_takeD)
      with b have "exact_leads (rows_of route_key data k)" unfolding list_all_iff by blast
      then show "(Name (route_name k), route_avg data k) =
          (Name (route_name k), double_of_rat (round_half_away1 (exact_mean (rows_of route_key data k))))"
        by (simp add: 3)
    qed
    then show ?thesis by (simp only: 2 [OF a] avgLead_claimed_def)
  qed
  from 0 1 2 3 4 show ?thesis by blast
qed

text \<open>The scenario satisfies the hypotheses: the means are 15 and 5.\<close>

theorem avgLeadByRoute_groups_witness:
  "no_member_key route_key scenario
   \<and> \<not> list_ex is_array_index (map route_key scenario)
   \<and> list_all (\<lambda>k. exact_leads (rows_of route_key scenario k)) (first_seen route_key scenario)
   \<and> fst (avgLeadByRoute {} scenario) = avgLead_claimed scenario
   \<and> route_avg scenario (ascii ''AKLDEL'') =
       double_of_rat (round_half_away1 (exact_mean (rows_of route_key scenario (ascii ''AKLDEL''))))"
proof -
  have a: "\<not> list_ex is_array_index (map route_key scenario)" by (rule scenario_keys)
  have b: "list_all (\<lambda>k. exact_leads (rows_of route_key scenario k)) (first_seen route_key scenario)"
    by (simp add: scenario_keys(1) scenario_exact)
  have p: "no_member_key route_key scenario" by (rule plain_examples)
  from a b p scenario_exact(1) avgLeadByRoute_groups [OF p, of "{}"] show ?thesis by blast
qed

text \<open>
  C5 as stated fails. Twenty rows whose leads add up to 7 have the mean 0.35, which
  rounds to 0.4; the double nearest to 0.35 is below it, and the average is 0.3. Of the
  routes \<open>"2"\<close> and \<open>"1"\<close>, in this order, \<open>"1"\<close> is listed first. And a route \<open>__proto__\<close>
  has no entry.
\<close>

theorem avgLead_counterexample:
  "fst (avgLeadByRoute {} lead_rows) =
     [(Name (ascii ''Auckland '' @ arrow @ ascii '' Delhi''), double_of_rat (3 / 10))]
   \<and> avgLead_claimed lead_rows =
     [(Name (ascii ''Auckland '' @ arrow @ ascii '' Delhi''), double_of_rat (2 / 5))]
   \<and> fst (avgLeadByRoute {} lead_rows) \<noteq> avgLead_claimed lead_rows
   \<and> fst (avgLeadByRoute {} tie_rows) = [(Name (ascii ''1''), Fin 4), (Name (ascii ''2''), Fin 3)]
   \<and> first_seen route_key tie_rows = [ascii ''2'', ascii ''1'']
   \<and> fst (avgLeadByRoute {} proto_rows) =
     [(Name (ascii ''Auckland '' @ arrow @ ascii '' Delhi''), Fin 4)]
   \<and> first_seen route_key proto_rows = [ascii ''__proto__'', ascii ''AKLDEL'']"
proof -
  have "double_of_rat (3 / 10) \<noteq> double_of_rat (2 / 5)" by (simp add: d3 d4)
  then have "fst (avgLeadByRoute {} lead_rows) \<noteq> avgLead_claimed lead_rows"
    by (simp add: lead_rows_avg lead_rows_claimed)
  moreover have "first_seen route_key tie_rows = [ascii ''2'', ascii ''1'']" by code_simp
  moreover have "first_seen route_key proto_rows = [ascii ''__proto__'', ascii ''AKLDEL'']"
    by code_simp
  ultimately show ?thesis
    by (simp add: lead_rows_avg lead_rows_claimed tie_rows_avg proto_rows_avg)
qed

section \<open>The numeric fields\<close>

lemma lead_cases:
  "lead r = (case purchase_lead r of
               None \<Rightarrow> Fin 0
             | Some s \<Rightarrow> if Number s = NaN then Fin 0 else Number s)"
  by (auto simp: lead_def num_or_def truthy_num_def Number_field_def split: option.splits jsnum.splits)

lemma passengers_cases:
  "(case num_passengers r of None \<Rightarrow> True | Some s \<Rightarrow> s = [] \<or> Number s \<noteq> NaN) \<Longrightarrow>
     passengers r = (case num_passengers r of
                       None \<Rightarrow> Fin 0
                     | Some s \<Rightarrow> if s = [] \<or> Number s = NaN then Fin 0 else Number s)"
  by (auto simp: passengers_def Number_field_def truthy_field_def split: option.splits)

lemma fold_fadd: "fold (\<lambda>r sum. fadd sum (f r)) rows a = foldl fadd a (map f rows)"
  by (induction rows arbitrary: a) simp_all

text \<open>
  C6, as the code has it. The value of \<open>purchase_lead\<close> that \<open>avgLeadByRoute\<close> adds up is
  \<open>Number\<close> of the field, with 0 in place of \<open>NaN\<close>: a missing field and a text that is no
  numeric literal count as 0, and every other value counts as it is, an infinity
  included. (This is stated for routes that name no member of \<open>Object.prototype\<close>, as in
  C5.) The value of \<open>num_passengers\<close> that the average of \<open>stats\<close> adds up is 0 for a
  missing or empty field and \<open>Number\<close> of the field for a numeric one, when every row
  has such a field.
\<close>

theorem numeric_coercion:
  "(no_member_key route_key data \<longrightarrow>
      fst (avgLeadByRoute g data) =
        map (\<lambda>k. (Name (route_name k),
                   round1 (fdiv_count
                     (foldl fadd (Fin 0)
                        (map (\<lambda>r. case purchase_lead r of
                                     None \<Rightarrow> Fin 0
                                   | Some s \<Rightarrow> if Number s = NaN then Fin 0 else Number s)
                           (rows_of route_key data k)))
                     (length (rows_of route_key data k)))))
          (take 12 (key_order (first_seen route_key data))))
   \<and> (data \<noteq> []
        \<and> list_all (\<lambda>r. case num_passengers r of None \<Rightarrow> True | Some s \<Rightarrow> s = [] \<or> Number s \<noteq> NaN)
            data \<longrightarrow>
      avgPassengers (stats data) =
        toFixed1 (fdiv_count
          (foldl fadd (Fin 0)
             (map (\<lambda>r. case num_passengers r of
                          None \<Rightarrow> Fin 0
                        | Some s \<Rightarrow> if s = [] \<or> Number s = NaN then Fin 0 else Number s)
                data))
          (length data)))"
proof (intro conjI impI)
  assume p: "no_member_key route_key data"
  have "lead = (\<lambda>r. case purchase_lead r of
                      None \<Rightarrow> Fin 0
                    | Some s \<Rightarrow> if Number s = NaN then Fin 0 else Number s)"
    by (rule ext) (rule lead_cases)
  then show "fst (avgLeadByRoute g data) =
        map (\<lambda>k. (Name (route_name k),
                   round1 (fdiv_count
                     (foldl fadd (Fin 0)
                        (map (\<lambda>r. case purchase_lead r of
                                     None \<Rightarrow> Fin 0
                                   | Some s \<Rightarrow> if Number s = NaN then Fin 0 else Number s)
                           (rows_of route_key data k)))
                     (length (rows_of route_key data k)))))
          (take 12 (key_order (first_seen route_key data)))"
    by (simp add: avgLeadByRoute_eq [OF p] lead_sum_def)
next
  assume a: "data \<noteq> []
        \<and> list_all (\<lambda>r. case num_passengers r of None \<Rightarrow> True | Some s \<Rightarrow> s = [] \<or> Number s \<noteq> NaN) data"
  have m: "map passengers data =
        map (\<lambda>r. case num_passengers r of
                   None \<Rightarrow> Fin 0
                 | Some s \<Rightarrow> if s = [] \<or> Number s = NaN then Fin 0 else Number s) data"
    using a by (intro map_cong refl passengers_cases) (simp add: list_all_iff)
  have "avgPassengers (stats data) =
          toFixed1 (fdiv_count (foldl fadd (Fin 0) (map passengers data)) (length data))"
    using a by (simp add: stats_def fold_fadd Let_def)
  then show "avgPassengers (stats data) =
        toFixed1 (fdiv_count
          (foldl fadd (Fin 0)
             (map (\<lambda>r. case num_passengers r of
                          None \<Rightarrow> Fin 0
                        | Some s \<Rightarrow> if s = [] \<or> Number s = NaN then Fin 0 else Number s)
                data))
          (length data))"
    by (simp only: m)
qed

text \<open>
  The scenario satisfies the hypotheses: its routes are \<open>AKLDEL\<close> and \<open>SYDBKK\<close>, and its
  rows have no passenger number.
\<close>

theorem numeric_coercion_witness:
  "no_member_key route_key scenario
   \<and> scenario \<noteq> []
   \<and> list_all (\<lambda>r. case num_passengers r of None \<Rightarrow> True | Some s \<Rightarrow> s = [] \<or> Number s \<noteq> NaN)
       scenario
   \<and> fst (avgLeadByRoute {} scenario) =
        map (\<lambda>k. (Name (route_name k),
                   round1 (fdiv_count
                     (foldl fadd (Fin 0)
                        (map (\<lambda>r. case purchase_lead r of
                                     None \<Rightarrow> Fin 0
                                   | Some s \<Rightarrow> if Number s = NaN then Fin 0 else Number s)
                           (rows_of route_key scenario k)))
                     (length (rows_of route_key scenario k)))))
          (take 12 (key_order (first_seen route_key scenario)))
   \<and> avgPassengers (stats scenario) =
        toFixed1 (fdiv_count
          (foldl fadd (Fin 0)
             (map (\<lambda>r. case num_passengers r of
                          None \<Rightarrow> Fin 0
                        | Some s \<Rightarrow> if s = [] \<or> Number s = NaN then Fin 0 else Number s)
                scenario))
          (length scenario))"
proof -
  have p: "no_member_key route_key scenario" by (rule plain_examples)
  have n: "scenario \<noteq> []" by (simp add: scenario_def)
  have l: "list_all (\<lambda>r. case num_passengers r of None \<Rightarrow> True | Some s \<Rightarrow> s = [] \<or> Number s \<noteq> NaN)
       scenario"
    by (simp add: scenario_def mk_row_def)
  from p n l numeric_coercion [of scenario "{}"] show ?thesis by blast
qed

text \<open>
  C6 as stated fails: the lead \<open>Infinity\<close> is a number for \<open>Number\<close>, and truthy, so that
  it is not replaced by 0, and the average of its route is infinite.
\<close>

theorem infinite_lead_counterexample:
  "Number (ascii ''Infinity'') = PInf
   \<and> lead infinite_row = PInf
   \<and> avgLeadByRoute {} [infinite_row] =
       ([(Name (ascii ''Auckland '' @ arrow @ ascii '' Delhi''), PInf)], {})"
proof -
  have k: "take 12 (key_order (first_seen route_key [infinite_row])) = [ascii ''AKLDEL'']"
    by code_simp
  have r: "rows_of route_key [infinite_row] (ascii ''AKLDEL'') = [infinite_row]"
    by (simp add: rows_of_def infinite_row_def route_key_mk_row)
  have l: "lead infinite_row = PInf" by (simp add: infinite_row_def leads)
  have "avgLeadByRoute {} [infinite_row] =
       ([(Name (ascii ''Auckland '' @ arrow @ ascii '' Delhi''), PInf)], {})"
    unfolding avgLeadByRoute_eq [OF plain_examples(6)] k
    by (simp add: names r lead_sum_def l round1_PInf)
  with l Number_examples(8) show ?thesis by (intro conjI)
qed

text \<open>
  A passenger number that is no numeric literal is not replaced by 0 either: \<open>|| 0\<close> is
  applied to the field, before \<open>Number\<close>, and not to the result as for the purchase lead.
\<close>

lemma non_numeric_passengers:
  "passengers (infinite_row\<lparr>num_passengers := Some (ascii ''abc'')\<rparr>) = NaN
   \<and> avgPassengers (stats [infinite_row\<lparr>num_passengers := Some (ascii ''abc'')\<rparr>]) = Text (ascii ''NaN'')"
  by (simp add: passengers_def stats_def truthy_field_def Number_field_def Number_examples toFixed1_def)
    (simp add: ascii_def)

end
